theory Spec2Isabelle
  imports Main "HOL-Library.Word" "HOL-Library.Sublist"
begin

section \<open>JavaScript strings\<close>

text \<open>
  A JavaScript string is a sequence of UTF-16 code units; the regular expressions of
  \<^verbatim>\<open>index.js\<close> carry no \<^verbatim>\<open>u\<close> flag, so they see code units as well.
  Literals are written through \<open>js\<close>, which embeds the characters of an Isabelle string.
\<close>

type_synonym jschar = "16 word"
type_synonym jsstring = "jschar list"

definition js :: "string \<Rightarrow> jsstring" where
  "js s = map (\<lambda>c. of_nat (of_char c)) s"

text \<open>ECMAScript \<^verbatim>\<open>LineTerminator\<close>: LF, CR, LS, PS.\<close>

definition is_line_terminator :: "jschar \<Rightarrow> bool" where
  "is_line_terminator c \<longleftrightarrow> c = 0x0A \<or> c = 0x0D \<or> c = 0x2028 \<or> c = 0x2029"

text \<open>
  The class \<^verbatim>\<open>\s\<close>, which is also what \<^verbatim>\<open>String.prototype.trim\<close> strips:
  \<^verbatim>\<open>WhiteSpace\<close> (TAB, VT, FF, ZWNBSP and the space separators) and \<^verbatim>\<open>LineTerminator\<close>.
\<close>

definition is_space :: "jschar \<Rightarrow> bool" where
  "is_space c \<longleftrightarrow>
     c = 0x09 \<or> c = 0x0A \<or> c = 0x0B \<or> c = 0x0C \<or> c = 0x0D \<or> c = 0x20 \<or> c = 0xA0 \<or>
     c = 0x1680 \<or> (0x2000 \<le> c \<and> c \<le> 0x200A) \<or> c = 0x2028 \<or> c = 0x2029 \<or>
     c = 0x202F \<or> c = 0x205F \<or> c = 0x3000 \<or> c = 0xFEFF"

text \<open>The class \<^verbatim>\<open>\w\<close>: ASCII letters, digits and the underscore.\<close>

definition is_word :: "jschar \<Rightarrow> bool" where
  "is_word c \<longleftrightarrow>
     (0x30 \<le> c \<and> c \<le> 0x39) \<or> (0x41 \<le> c \<and> c \<le> 0x5A) \<or> c = 0x5F \<or> (0x61 \<le> c \<and> c \<le> 0x7A)"

text \<open>The atom \<^verbatim>\<open>.\<close> (no \<^verbatim>\<open>s\<close> flag): any code unit but a line terminator.\<close>

definition is_dot :: "jschar \<Rightarrow> bool" where
  "is_dot c \<longleftrightarrow> \<not> is_line_terminator c"

definition is_char :: "jschar \<Rightarrow> jschar \<Rightarrow> bool" where
  "is_char a c \<longleftrightarrow> c = a"

abbreviation LF :: jschar where "LF \<equiv> 0x0A"
abbreviation BACKTICK :: jschar where "BACKTICK \<equiv> 0x60"
abbreviation DASH :: jschar where "DASH \<equiv> 0x2D"
abbreviation HASH :: jschar where "HASH \<equiv> 0x23"
abbreviation SPACE :: jschar where "SPACE \<equiv> 0x20"

definition trim :: "jsstring \<Rightarrow> jsstring" where
  "trim s = rev (dropWhile is_space (rev (dropWhile is_space s)))"

definition startsWith :: "jsstring \<Rightarrow> jsstring \<Rightarrow> bool" where
  "startsWith s p \<longleftrightarrow> take (length p) s = p"


section \<open>Regular expressions: the backtracking matcher\<close>

text \<open>
  The fragment of ECMAScript patterns that \<^verbatim>\<open>postProcessForMdx\<close> uses: a character
  class, the assertions \<^verbatim>\<open>^\<close> and \<^verbatim>\<open>$\<close> under the \<^verbatim>\<open>m\<close> flag, a greedy quantifier
  \<^verbatim>\<open>{lo,hi}\<close> on a character class (\<open>hi = None\<close> is unbounded), the greedy \<^verbatim>\<open>?\<close> on an
  arbitrary atom, and a numbered capture group. A pattern is the list of its terms.
\<close>

datatype node =
    Chr "jschar \<Rightarrow> bool"
  | Bol
  | Eol
  | Rep "jschar \<Rightarrow> bool" nat "nat option"
  | Opt node
  | Grp nat "node list"

text \<open>
  The matcher runs a stack of frames, which is the continuation of the ECMAScript
  semantics: the terms still to match, the pending end of a capture group (with the input
  at its start) and the pending check that an optional atom consumed input.
\<close>

datatype frame =
    Run node
  | Close nat jsstring
  | Progress nat

type_synonym caps = "nat \<Rightarrow> jsstring option"

fun weight :: "node \<Rightarrow> nat" where
  "weight (Opt n) = 3 + weight n"
| "weight (Grp i ns) = 2 + sum_list (map weight ns)"
| "weight _ = 1"

fun fweight :: "frame \<Rightarrow> nat" where
  "fweight (Run n) = weight n"
| "fweight _ = 1"

fun groups :: "node \<Rightarrow> nat list" where
  "groups (Opt n) = groups n"
| "groups (Grp i ns) = i # concat (map groups ns)"
| "groups _ = []"

definition clear :: "nat list \<Rightarrow> caps \<Rightarrow> caps" where
  "clear is c = (\<lambda>i. if i \<in> set is then None else c i)"

definition bol :: "jschar option \<Rightarrow> bool" where
  "bol p \<longleftrightarrow> (case p of None \<Rightarrow> True | Some a \<Rightarrow> is_line_terminator a)"

definition eol :: "jsstring \<Rightarrow> bool" where
  "eol s \<longleftrightarrow> (case s of [] \<Rightarrow> True | a # _ \<Rightarrow> is_line_terminator a)"

definition dec :: "nat option \<Rightarrow> nat option" where
  "dec hi = map_option (\<lambda>h. h - 1) hi"

text \<open>
  \<open>matcher k p s c\<close>: \<open>p\<close> is the code unit before the current position (\<open>None\<close> at
  index 0), \<open>s\<close> the input from the current position on, \<open>c\<close> the captures so far. The
  result is the state at the end of the leftmost-preferred match, or \<open>None\<close> on failure.
\<close>

function matcher ::
  "frame list \<Rightarrow> jschar option \<Rightarrow> jsstring \<Rightarrow> caps \<Rightarrow> (jschar option \<times> jsstring \<times> caps) option"
where
  "matcher [] p s c = Some (p, s, c)"
| "matcher (Run (Chr P) # k) p s c =
     (case s of [] \<Rightarrow> None | a # s' \<Rightarrow> if P a then matcher k (Some a) s' c else None)"
| "matcher (Run Bol # k) p s c = (if bol p then matcher k p s c else None)"
| "matcher (Run Eol # k) p s c = (if eol s then matcher k p s c else None)"
| "matcher (Run (Rep P lo hi) # k) p s c =
     (case s of
        [] \<Rightarrow> if lo = 0 then matcher k p s c else None
      | a # s' \<Rightarrow>
          if P a \<and> hi \<noteq> Some 0 then
            (case matcher (Run (Rep P (lo - 1) (dec hi)) # k) (Some a) s' c of
               Some r \<Rightarrow> Some r
             | None \<Rightarrow> if lo = 0 then matcher k p s c else None)
          else if lo = 0 then matcher k p s c else None)"
| "matcher (Run (Opt n) # k) p s c =
     (case matcher (Run n # Progress (length s) # k) p s (clear (groups n) c) of
        Some r \<Rightarrow> Some r
      | None \<Rightarrow> matcher k p s c)"
| "matcher (Run (Grp i ns) # k) p s c = matcher (map Run ns @ Close i s # k) p s c"
| "matcher (Close i s0 # k) p s c =
     matcher k p s (c(i \<mapsto> take (length s0 - length s) s0))"
| "matcher (Progress n # k) p s c = (if length s = n then None else matcher k p s c)"
  by pat_completeness auto
termination
  by (relation "measures [\<lambda>(k, p, s, c). sum_list (map fweight k), \<lambda>(k, p, s, c). length s]")
     (auto simp: comp_def)

text \<open>The replacement template: literal text and \<^verbatim>\<open>$n\<close> references.\<close>

datatype piece = Lit jsstring | Ref nat

fun expand :: "piece list \<Rightarrow> caps \<Rightarrow> jsstring" where
  "expand [] c = []"
| "expand (Lit l # t) c = l @ expand t c"
| "expand (Ref i # t) c = (case c i of None \<Rightarrow> [] | Some v \<Rightarrow> v) @ expand t c"

text \<open>
  \<^verbatim>\<open>String.prototype.replace\<close> with a pattern under the \<^verbatim>\<open>g\<close> flag: from the current
  index, the first index at which the pattern matches is found, the text before it is
  copied, the match is replaced, and the search resumes at the end of the match (one code
  unit further when the match is empty).
\<close>

function replace_from :: "node list \<Rightarrow> piece list \<Rightarrow> jschar option \<Rightarrow> jsstring \<Rightarrow> jsstring" where
  "replace_from re t p s =
     (case matcher (map Run re) p s (\<lambda>_. None) of
        Some (p', s', c) \<Rightarrow>
          if length s' < length s then expand t c @ replace_from re t p' s'
          else (case s of [] \<Rightarrow> expand t c | a # r \<Rightarrow> expand t c @ a # replace_from re t (Some a) r)
      | None \<Rightarrow> (case s of [] \<Rightarrow> [] | a # r \<Rightarrow> a # replace_from re t (Some a) r))"
  by pat_completeness auto
termination
  by (relation "measure (\<lambda>(re, t, p, s). length s)") auto

definition replace :: "node list \<Rightarrow> piece list \<Rightarrow> jsstring \<Rightarrow> jsstring" where
  "replace re t s = replace_from re t None s"


section \<open>The post-processor\<close>

text \<open>\<^verbatim>\<open>/\n{3,}/g\<close> and \<^verbatim>\<open>'\n\n'\<close>\<close>

definition re_blank :: "node list" where
  "re_blank = [Rep (is_char LF) 3 None]"

definition tp_blank :: "piece list" where
  "tp_blank = [Lit [LF, LF]]"

text \<open>\<^verbatim>\<open>/```(\w+)?\n\n/g\<close> and \<^verbatim>\<open>'```$1\n'\<close>\<close>

definition re_fence :: "node list" where
  "re_fence = [Chr (is_char BACKTICK), Chr (is_char BACKTICK), Chr (is_char BACKTICK),
               Opt (Grp 1 [Rep is_word 1 None]), Chr (is_char LF), Chr (is_char LF)]"

definition tp_fence :: "piece list" where
  "tp_fence = [Lit [BACKTICK, BACKTICK, BACKTICK], Ref 1, Lit [LF]]"

text \<open>\<^verbatim>\<open>/^(\s*)-\s*\n/gm\<close> and \<^verbatim>\<open>'$1- '\<close>\<close>

definition re_list :: "node list" where
  "re_list = [Bol, Grp 1 [Rep is_space 0 None], Chr (is_char DASH), Rep is_space 0 None,
              Chr (is_char LF)]"

definition tp_list :: "piece list" where
  "tp_list = [Ref 1, Lit [DASH, SPACE]]"

text \<open>\<^verbatim>\<open>/^(#{1,6})\s+(.+)$/gm\<close> and \<^verbatim>\<open>'$1 $2'\<close>\<close>

definition re_heading :: "node list" where
  "re_heading = [Bol, Grp 1 [Rep (is_char HASH) 1 (Some 6)], Rep is_space 1 None,
                 Grp 2 [Rep is_dot 1 None], Eol]"

definition tp_heading :: "piece list" where
  "tp_heading = [Ref 1, Lit [SPACE], Ref 2]"

definition step1 :: "jsstring \<Rightarrow> jsstring" where
  "step1 = replace re_blank tp_blank"

definition step2 :: "jsstring \<Rightarrow> jsstring" where
  "step2 = replace re_fence tp_fence"

definition step3 :: "jsstring \<Rightarrow> jsstring" where
  "step3 = replace re_list tp_list"

definition step4 :: "jsstring \<Rightarrow> jsstring" where
  "step4 = replace re_heading tp_heading"

definition postProcessForMdx :: "jsstring \<Rightarrow> jsstring" where
  "postProcessForMdx markdown = trim (step4 (step3 (step2 (step1 markdown))))"


section \<open>Auxiliary notions for reasoning about matches\<close>

text \<open>The code unit before the position reached after reading \<open>w\<close>.\<close>

definition lastp :: "jschar option \<Rightarrow> jsstring \<Rightarrow> jschar option" where
  "lastp p w = (if w = [] then p else Some (last w))"

text \<open>Whether \<open>n\<close> repetitions respect the upper bound of a quantifier.\<close>

definition within :: "nat option \<Rightarrow> nat \<Rightarrow> bool" where
  "within hi n \<longleftrightarrow> (case hi of None \<Rightarrow> True | Some h \<Rightarrow> n \<le> h)"


section \<open>The four patterns, read off the matcher\<close>

text \<open>
  What a match of each pattern at the current position consumes, written as plain
  recursion on the input. The section on the matcher proves that the matcher computes
  exactly these.
\<close>

fun two_lf :: "jsstring \<Rightarrow> jsstring option" where
  "two_lf (a # b # r) = (if a = LF \<and> b = LF then Some r else None)"
| "two_lf _ = None"

text \<open>\<^verbatim>\<open>```(\w+)?\n\n\<close>: the tag and the input after the match.\<close>

fun fence_match :: "jsstring \<Rightarrow> (jsstring \<times> jsstring) option" where
  "fence_match (a # b # c # r) =
     (if a = BACKTICK \<and> b = BACKTICK \<and> c = BACKTICK
      then map_option (\<lambda>r'. (takeWhile is_word r, r')) (two_lf (dropWhile is_word r))
      else None)"
| "fence_match _ = None"

text \<open>\<^verbatim>\<open>\s*\n\<close>: the input after the last line feed of the leading white space.\<close>

fun skip_blank :: "jsstring \<Rightarrow> jsstring option" where
  "skip_blank [] = None"
| "skip_blank (a # s) =
     (if is_space a
      then (case skip_blank s of Some r \<Rightarrow> Some r | None \<Rightarrow> if a = LF then Some s else None)
      else None)"

text \<open>\<^verbatim>\<open>(\s*)-\s*\n\<close>: the indentation and the input after the match.\<close>

definition list_match :: "jsstring \<Rightarrow> (jsstring \<times> jsstring) option" where
  "list_match s =
     (case dropWhile is_space s of
        [] \<Rightarrow> None
      | a # r \<Rightarrow> if a = DASH then map_option (\<lambda>r'. (takeWhile is_space s, r')) (skip_blank r)
                 else None)"

text \<open>\<^verbatim>\<open>(.+)$\<close>: the text up to the end of the line and the input after it.\<close>

definition line_text :: "jsstring \<Rightarrow> (jsstring \<times> jsstring) option" where
  "line_text s =
     (if takeWhile is_dot s = [] then None else Some (takeWhile is_dot s, dropWhile is_dot s))"

text \<open>
  \<^verbatim>\<open>\s+(.+)$\<close>, where \<open>ok\<close> tells that white space has been consumed already: the
  white space is taken as far as it goes and given back until text can follow.
\<close>

fun gap_text :: "bool \<Rightarrow> jsstring \<Rightarrow> (jsstring \<times> jsstring) option" where
  "gap_text ok [] = None"
| "gap_text ok (a # s) =
     (if is_space a
      then (case gap_text True s of
              Some r \<Rightarrow> Some r
            | None \<Rightarrow> if ok then line_text (a # s) else None)
      else if ok then line_text (a # s) else None)"

text \<open>\<^verbatim>\<open>(#{1,6})\s+(.+)$\<close>: the marker run, the text and the input after the match.\<close>

definition heading_match :: "jsstring \<Rightarrow> (jsstring \<times> jsstring \<times> jsstring) option" where
  "heading_match s =
     (let h = takeWhile (is_char HASH) s in
      if 1 \<le> length h \<and> length h \<le> 6
      then map_option (\<lambda>(t, r). (h, t, r)) (gap_text False (dropWhile (is_char HASH) s))
      else None)"


section \<open>Texts on which a step has nothing to do\<close>

text \<open>
  \<open>everywhere Q p s\<close>: the property \<open>Q\<close> holds at every position of \<open>s\<close>, where it is
  given the code unit before the position (\<open>p\<close> before the first one) and the text from
  the position on.
\<close>

fun everywhere :: "(jschar option \<Rightarrow> jsstring \<Rightarrow> bool) \<Rightarrow> jschar option \<Rightarrow> jsstring \<Rightarrow> bool" where
  "everywhere Q p [] = Q p []"
| "everywhere Q p (a # s) = (Q p (a # s) \<and> everywhere Q (Some a) s)"

text \<open>
  No match of the pattern of step 1, 2 or 3 starts here; a match of the heading pattern
  that starts here is replaced by itself.
\<close>

definition calm1 :: "jschar option \<Rightarrow> jsstring \<Rightarrow> bool" where
  "calm1 p v \<longleftrightarrow> length (takeWhile (is_char LF) v) < 3"

definition calm2 :: "jschar option \<Rightarrow> jsstring \<Rightarrow> bool" where
  "calm2 p v \<longleftrightarrow> fence_match v = None"

definition calm3 :: "jschar option \<Rightarrow> jsstring \<Rightarrow> bool" where
  "calm3 p v \<longleftrightarrow> (bol p \<longrightarrow> list_match v = None)"

definition calm4 :: "jschar option \<Rightarrow> jsstring \<Rightarrow> bool" where
  "calm4 p v \<longleftrightarrow>
     (bol p \<longrightarrow> (case heading_match v of None \<Rightarrow> True | Some (h, t, r) \<Rightarrow> v = h @ [SPACE] @ t @ r))"

text \<open>
  The output of a step and its input agree up to the first occurrence, in the output, of
  the character \<open>m\<close> with which every replacement of the step can be told from copied
  text.
\<close>

definition agree :: "jschar \<Rightarrow> jsstring \<Rightarrow> jsstring \<Rightarrow> bool" where
  "agree m out inp \<longleftrightarrow> prefix (takeWhile (\<lambda>c. c \<noteq> m) out) inp"

abbreviation R3 :: "jschar option \<Rightarrow> jsstring \<Rightarrow> jsstring" where
  "R3 \<equiv> replace_from re_list tp_list"

abbreviation R4 :: "jschar option \<Rightarrow> jsstring \<Rightarrow> jsstring" where
  "R4 \<equiv> replace_from re_heading tp_heading"


section \<open>The image rule of the renderer\<close>

text \<open>
  \<^verbatim>\<open>node.getAttribute(name) || ''\<close>: an absent attribute (\<open>None\<close>) and an empty one both
  give the empty string.
\<close>

definition or_empty :: "jsstring option \<Rightarrow> jsstring" where
  "or_empty a = (case a of None \<Rightarrow> [] | Some v \<Rightarrow> v)"

text \<open>
  The \<^verbatim>\<open>replacement\<close> function of the rule \<^verbatim>\<open>'image'\<close>, applied to the attributes
  \<^verbatim>\<open>alt\<close>, \<^verbatim>\<open>src\<close> and \<^verbatim>\<open>title\<close> of the element. A string is truthy when it is not empty.
\<close>

definition image_replacement ::
  "jsstring option \<Rightarrow> jsstring option \<Rightarrow> jsstring option \<Rightarrow> jsstring" where
  \<open>image_replacement alt_attr src_attr title_attr =
     (let alt = or_empty alt_attr; src = or_empty src_attr; title = or_empty title_attr in
      if startsWith src (js ''data:'') then
        js ''!['' @ alt @ js '']('' @ src @ (if title \<noteq> [] then js '' "'' @ title @ js ''"'' else [])
          @ js '')''
      else
        js ''<img src="'' @ src @ js ''" alt="'' @ alt @ js ''"'' @
          (if title \<noteq> [] then js '' title="'' @ title @ js ''"'' else []) @ js '' />'')\<close>


section \<open>Node's \<^verbatim>\<open>path\<close> module\<close>

text \<open>
  The module \<^verbatim>\<open>path\<close> belongs to the Node runtime, not to the repository. Its functions
  are modelled in their POSIX flavour, after the documented behaviour of
  \<^verbatim>\<open>path.basename\<close>, \<^verbatim>\<open>path.extname\<close>, \<^verbatim>\<open>path.dirname\<close> and \<^verbatim>\<open>path.join\<close>.
\<close>

abbreviation SLASH :: jschar where "SLASH \<equiv> 0x2F"
abbreviation DOT :: jschar where "DOT \<equiv> 0x2E"

definition trailing_slashes :: "jsstring \<Rightarrow> jsstring" where
  "trailing_slashes p = takeWhile (\<lambda>c. c = SLASH) (rev p)"

text \<open>The last portion of a path: trailing separators are ignored.\<close>

definition last_portion :: "jsstring \<Rightarrow> jsstring" where
  "last_portion p = rev (takeWhile (\<lambda>c. c \<noteq> SLASH) (dropWhile (\<lambda>c. c = SLASH) (rev p)))"

definition endsWith :: "jsstring \<Rightarrow> jsstring \<Rightarrow> bool" where
  "endsWith s e \<longleftrightarrow> length e \<le> length s \<and> drop (length s - length e) s = e"

text \<open>
  \<^verbatim>\<open>path.extname\<close>: from the last \<^verbatim>\<open>.\<close> of the last portion to its end; empty when
  there is no \<^verbatim>\<open>.\<close>, when the only \<^verbatim>\<open>.\<close> is the first character of the portion, and for
  the portion \<^verbatim>\<open>..\<close>.
\<close>

definition extname :: "jsstring \<Rightarrow> jsstring" where
  "extname p =
     (let b = last_portion p;
          after = rev (takeWhile (\<lambda>c. c \<noteq> DOT) (rev b));
          dot = length b - length after - 1
      in if DOT \<notin> set b \<or> dot = 0 \<or> b = [DOT, DOT] then [] else drop dot b)"

text \<open>
  \<^verbatim>\<open>path.basename(path, suffix)\<close>; \<open>None\<close> is the call with one argument. The suffix is
  removed from the last portion when the portion ends with it and is longer than it.
\<close>

definition basename :: "jsstring \<Rightarrow> jsstring option \<Rightarrow> jsstring" where
  "basename p ext =
     (let b = last_portion p in
      case ext of
        None \<Rightarrow> b
      | Some e \<Rightarrow>
          if e = [] \<or> length p < length e then b
          else if e = p then []
          else if length e < length b \<and> endsWith b e then take (length b - length e) b
          else if length b < length e \<and> endsWith e b then b @ trailing_slashes p
          else b)"

text \<open>\<^verbatim>\<open>path.dirname\<close>: the path up to the separator before its last portion.\<close>

definition dirname :: "jsstring \<Rightarrow> jsstring" where
  "dirname p =
     (if p = [] then [DOT]
      else
        let hasRoot = (hd p = SLASH);
            lead = dropWhile (\<lambda>c. c \<noteq> SLASH) (dropWhile (\<lambda>c. c = SLASH) (rev (tl p)));
            stop = length lead
        in if lead = [] then (if hasRoot then [SLASH] else [DOT])
           else if hasRoot \<and> stop = 1 then [SLASH, SLASH]
           else take stop p)"

fun split_path :: "jsstring \<Rightarrow> jsstring list" where
  "split_path [] = [[]]"
| "split_path (c # s) =
     (if c = SLASH then [] # split_path s
      else (case split_path s of [] \<Rightarrow> [[c]] | x # xs \<Rightarrow> (c # x) # xs))"

text \<open>
  The segments of a normalised path, last segment first: empty segments and \<^verbatim>\<open>.\<close> are
  dropped, \<^verbatim>\<open>..\<close> removes the segment before it, or is kept where there is none to
  remove and the path is relative.
\<close>

fun resolve :: "bool \<Rightarrow> jsstring list \<Rightarrow> jsstring list \<Rightarrow> jsstring list" where
  "resolve up res [] = res"
| "resolve up res (x # xs) =
     (if x = [] \<or> x = [DOT] then resolve up res xs
      else if x = [DOT, DOT] then
        (case res of
           y # ys \<Rightarrow> if y \<noteq> [DOT, DOT] then resolve up ys xs
                     else resolve up (if up then x # res else res) xs
         | [] \<Rightarrow> resolve up (if up then x # res else res) xs)
      else resolve up (x # res) xs)"

fun join_segments :: "jsstring list \<Rightarrow> jsstring" where
  "join_segments [] = []"
| "join_segments [x] = x"
| "join_segments (x # y # ys) = x @ SLASH # join_segments (y # ys)"

definition normalize :: "jsstring \<Rightarrow> jsstring" where
  "normalize p =
     (if p = [] then [DOT]
      else
        let isAbsolute = (hd p = SLASH);
            trailingSeparator = (last p = SLASH);
            r = join_segments (rev (resolve (\<not> isAbsolute) [] (split_path p)))
        in if r = [] then
             (if isAbsolute then [SLASH] else if trailingSeparator then [DOT, SLASH] else [DOT])
           else (if isAbsolute then [SLASH] else []) @ r @ (if trailingSeparator then [SLASH] else []))"

text \<open>\<^verbatim>\<open>path.join\<close> of two arguments.\<close>

definition join :: "jsstring \<Rightarrow> jsstring \<Rightarrow> jsstring" where
  "join a b =
     (if a = [] \<and> b = [] then [DOT]
      else if a = [] then normalize b
      else if b = [] then normalize a
      else normalize (a @ SLASH # b))"

text \<open>
  \<^verbatim>\<open>String.prototype.toLowerCase\<close> on the ASCII letters. No other code unit is mapped to a
  character of \<^verbatim>\<open>'.docx'\<close> by the full Unicode mapping, so the comparison with this
  literal in \<^verbatim>\<open>convertDirectory\<close> is decided as in the source.
\<close>

definition toLowerCase :: "jsstring \<Rightarrow> jsstring" where
  "toLowerCase s = map (\<lambda>c. if 0x41 \<le> c \<and> c \<le> 0x5A then c + 0x20 else c) s"


section \<open>The front matter\<close>

text \<open>
  \<^verbatim>\<open>addMdxFrontmatter(content, originalPath)\<close>. The date string
  \<^verbatim>\<open>new Date().toISOString().split('T')[0]\<close> comes from the clock and is the parameter
  \<open>today\<close>.
\<close>

definition addMdxFrontmatter :: "jsstring \<Rightarrow> jsstring \<Rightarrow> jsstring \<Rightarrow> jsstring" where
  \<open>addMdxFrontmatter today content originalPath =
     (let fileName = basename originalPath (Some (extname originalPath));
          frontmatter =
            js ''---\<newline>'' @
            js ''title: "'' @ fileName @ js ''"\<newline>'' @
            js ''description: "Converted from DOCX file"\<newline>'' @
            js ''date: "'' @ today @ js ''"\<newline>'' @
            js ''---\<newline>'' @
            js ''\<newline>''
      in frontmatter @ content)\<close>


section \<open>The conversion orchestrator\<close>

text \<open>
  The errors a conversion can end with. \<^verbatim>\<open>fs.access\<close> rejects a missing path
  (\<open>NotFoundError\<close>), the extraction collaborator rejects with an error of its own, and
  a failing write or directory operation is an \<open>IOError\<close>.
\<close>

datatype error = NotFoundError | ExtractionError jsstring | IOError

text \<open>
  What a run does to the outside, in the order in which it does it: the calls to the
  file system and to the extraction collaborator, and the lines printed with
  \<^verbatim>\<open>console.log\<close> and \<^verbatim>\<open>console.error\<close> (one constructor for each call site).
\<close>

datatype event =
    FsAccess jsstring
  | FsReaddir jsstring
  | FsMkdir jsstring
  | FsWriteFile jsstring jsstring
  | MammothConvert jsstring
  | LogReading jsstring
  | LogWarnings
  | LogWarning jsstring
  | LogConverting
  | LogSuccess jsstring
  | LogErrorConverting error
  | LogProcessing jsstring
  | LogNoFiles
  | LogFailed jsstring error
  | LogConverted nat
  | LogErrorDirectory error

text \<open>
  The file system: the regular files with their contents, the directories with their
  entries in listing order, and the paths at which the system refuses a write or the
  creation of a directory. \<open>trace\<close> is the history of events.
\<close>

record world =
  files :: "jsstring \<Rightarrow> jsstring option"
  listing :: "jsstring \<Rightarrow> jsstring list option"
  unwritable :: "jsstring set"
  uncreatable :: "jsstring set"
  trace :: "event list"

text \<open>
  The collaborators: \<^verbatim>\<open>mammoth.convertToHtml\<close> maps the bytes of a document to an error
  or to the HTML and the messages, \<^verbatim>\<open>turndownService.turndown\<close> renders HTML, and
  \<open>today\<close> is the date string of the clock.
\<close>

record env =
  mammoth :: "jsstring \<Rightarrow> error + (jsstring \<times> jsstring list)"
  turndown :: "jsstring \<Rightarrow> jsstring"
  today :: jsstring

definition emit :: "event \<Rightarrow> world \<Rightarrow> world" where
  "emit e w = w\<lparr>trace := trace w @ [e]\<rparr>"

text \<open>A string argument is falsy when it is absent or empty.\<close>

definition truthy :: "jsstring option \<Rightarrow> bool" where
  "truthy a \<longleftrightarrow> (case a of None \<Rightarrow> False | Some v \<Rightarrow> v \<noteq> [])"

text \<open>The \<^verbatim>\<open>catch\<close> block of \<^verbatim>\<open>convertDocxToMdx\<close>: print the error and throw it again.\<close>

definition fail_convert :: "error \<Rightarrow> world \<Rightarrow> (error + jsstring) \<times> world" where
  "fail_convert e w = (Inl e, emit (LogErrorConverting e) w)"

definition default_output :: "jsstring \<Rightarrow> jsstring" where
  "default_output inputPath =
     (let inputDir = dirname inputPath;
          inputName = basename inputPath (Some (extname inputPath))
      in join inputDir (inputName @ js ''.mdx''))"

definition convertDocxToMdx ::
  "env \<Rightarrow> jsstring \<Rightarrow> jsstring option \<Rightarrow> world \<Rightarrow> (error + jsstring) \<times> world" where
  "convertDocxToMdx E inputPath outputPath w0 =
     (let w1 = emit (FsAccess inputPath) (emit (LogReading inputPath) w0) in
      if files w1 inputPath = None \<and> listing w1 inputPath = None then fail_convert NotFoundError w1
      else
        let w2 = emit (MammothConvert inputPath) w1 in
        case (case files w2 inputPath of None \<Rightarrow> Inl IOError | Some d \<Rightarrow> mammoth E d) of
          Inl e \<Rightarrow> fail_convert e w2
        | Inr (html, messages) \<Rightarrow>
            let w3 = (if messages \<noteq> []
                      then foldl (\<lambda>w m. emit (LogWarning m) w) (emit LogWarnings w2) messages
                      else w2);
                w4 = emit LogConverting w3;
                markdown = postProcessForMdx (turndown E html);
                out = (if truthy outputPath then the outputPath else default_output inputPath);
                mdxContent = addMdxFrontmatter (today E) markdown inputPath;
                w5 = emit (FsWriteFile out mdxContent) w4
            in if out \<in> unwritable w5 then fail_convert IOError w5
               else (Inr out, emit (LogSuccess out) (w5\<lparr>files := (files w5)(out \<mapsto> mdxContent)\<rparr>)))"

text \<open>The filter of \<^verbatim>\<open>convertDirectory\<close>.\<close>

definition eligible :: "jsstring \<Rightarrow> bool" where
  "eligible file \<longleftrightarrow>
     toLowerCase (extname file) = js ''.docx'' \<and> \<not> startsWith (basename file None) (js ''~'')"

text \<open>
  The \<^verbatim>\<open>for\<close> loop of \<^verbatim>\<open>convertDirectory\<close> over the files still to convert, with the
  paths collected so far. A failing \<^verbatim>\<open>fs.mkdir\<close> is outside the inner \<^verbatim>\<open>try\<close> and leaves
  the loop; a failing conversion is printed and the loop goes on.
\<close>

fun convert_files ::
  "env \<Rightarrow> jsstring \<Rightarrow> jsstring option \<Rightarrow> jsstring list \<Rightarrow> jsstring list \<Rightarrow> world
     \<Rightarrow> (error + jsstring list) \<times> world" where
  "convert_files E inputDir outputDir [] outputPaths w = (Inr outputPaths, w)"
| "convert_files E inputDir outputDir (file # rest) outputPaths w =
     (let inputPath = join inputDir file in
      if truthy outputDir \<and> the outputDir \<in> uncreatable w
      then (Inl IOError, emit (FsMkdir (the outputDir)) w)
      else
        let w1 = (if truthy outputDir
                  then (emit (FsMkdir (the outputDir)) w)
                         \<lparr>listing := (listing w)(the outputDir \<mapsto>
                             (case listing w (the outputDir) of None \<Rightarrow> [] | Some l \<Rightarrow> l))\<rparr>
                  else w);
            outputPath = (if truthy outputDir
                          then Some (join (the outputDir)
                                 (basename file (Some (extname file)) @ js ''.mdx''))
                          else None)
        in case convertDocxToMdx E inputPath outputPath w1 of
             (Inr convertedPath, w2) \<Rightarrow>
               convert_files E inputDir outputDir rest (outputPaths @ [convertedPath]) w2
           | (Inl e, w2) \<Rightarrow>
               convert_files E inputDir outputDir rest outputPaths (emit (LogFailed file e) w2))"

text \<open>The \<^verbatim>\<open>catch\<close> block of \<^verbatim>\<open>convertDirectory\<close>.\<close>

definition fail_directory :: "error \<Rightarrow> world \<Rightarrow> (error + jsstring list) \<times> world" where
  "fail_directory e w = (Inl e, emit (LogErrorDirectory e) w)"

definition convertDirectory ::
  "env \<Rightarrow> jsstring \<Rightarrow> jsstring option \<Rightarrow> world \<Rightarrow> (error + jsstring list) \<times> world" where
  "convertDirectory E inputDir outputDir w0 =
     (let w1 = emit (FsReaddir inputDir) (emit (LogProcessing inputDir) w0) in
      case listing w1 inputDir of
        None \<Rightarrow> fail_directory (if files w1 inputDir = None then NotFoundError else IOError) w1
      | Some entries \<Rightarrow>
          let docxFiles = filter eligible entries in
          if length docxFiles = 0 then (Inr [], emit LogNoFiles w1)
          else
            (case convert_files E inputDir outputDir docxFiles [] w1 of
               (Inl e, w2) \<Rightarrow> fail_directory e w2
             | (Inr outputPaths, w2) \<Rightarrow> (Inr outputPaths, emit (LogConverted (length outputPaths)) w2)))"


section \<open>Reading a trace\<close>

text \<open>
  The source paths whose conversion was attempted (every call of \<^verbatim>\<open>convertDocxToMdx\<close>
  starts with \<^verbatim>\<open>fs.access\<close> on its input), the destinations reported as converted, the
  files reported as failed by the batch, the paths handed to \<^verbatim>\<open>fs.writeFile\<close> and the
  paths handed to the extraction collaborator.
\<close>

fun accessed :: "event \<Rightarrow> jsstring list" where
  "accessed (FsAccess p) = [p]"
| "accessed _ = []"

fun succeeded :: "event \<Rightarrow> jsstring list" where
  "succeeded (LogSuccess p) = [p]"
| "succeeded _ = []"

fun failed :: "event \<Rightarrow> jsstring list" where
  "failed (LogFailed f e) = [f]"
| "failed _ = []"

fun written :: "event \<Rightarrow> jsstring list" where
  "written (FsWriteFile p c) = [p]"
| "written _ = []"

fun extracted :: "event \<Rightarrow> jsstring list" where
  "extracted (MammothConvert p) = [p]"
| "extracted _ = []"

definition attempts :: "event list \<Rightarrow> jsstring list" where
  "attempts tr = concat (map accessed tr)"

definition successes :: "event list \<Rightarrow> jsstring list" where
  "successes tr = concat (map succeeded tr)"

definition failures :: "event list \<Rightarrow> jsstring list" where
  "failures tr = concat (map failed tr)"

definition writes :: "event list \<Rightarrow> jsstring list" where
  "writes tr = concat (map written tr)"

definition extractions :: "event list \<Rightarrow> jsstring list" where
  "extractions tr = concat (map extracted tr)"


section \<open>A sample run\<close>

text \<open>
  A collaborator that rejects the document \<^verbatim>\<open>bad\<close> and turns any other into a heading,
  and a directory \<^verbatim>\<open>docs\<close> with five entries.
\<close>

definition sample_env :: env where
  "sample_env =
     \<lparr>mammoth = (\<lambda>d. if d = js ''bad'' then Inl (ExtractionError (js ''corrupt''))
                       else Inr (js ''<h1>'' @ d @ js ''</h1>'', [])),
      turndown = (\<lambda>h. js ''#  Title''),
      today = js ''2024-05-17''\<rparr>"

definition sample_world :: "jsstring list \<Rightarrow> world" where
  "sample_world entries =
     \<lparr>files = [js ''docs/a.docx'' \<mapsto> js ''A'', js ''docs/~temp.docx'' \<mapsto> js ''T'',
               js ''docs/b.txt'' \<mapsto> js ''B'', js ''docs/c.DOCX'' \<mapsto> js ''bad'',
               js ''docs/.docx'' \<mapsto> js ''H''],
      listing = [js ''docs'' \<mapsto> entries],
      unwritable = {}, uncreatable = {}, trace = []\<rparr>"

section \<open>Facts about the matcher\<close>

lemmas matcher_Rep = matcher.simps(5)
declare matcher.simps(5) [simp del]

lemma matcher_Rep_Nil [simp]:
  "matcher (Run (Rep P lo hi) # k) p [] c = (if lo = 0 then matcher k p [] c else None)"
  by (simp add: matcher_Rep)

lemma matcher_Rep_Cons [simp]:
  "matcher (Run (Rep P lo hi) # k) p (a # s) c =
     (if P a \<and> hi \<noteq> Some 0 then
        (case matcher (Run (Rep P (lo - 1) (dec hi)) # k) (Some a) s c of
           Some r \<Rightarrow> Some r
         | None \<Rightarrow> if lo = 0 then matcher k p (a # s) c else None)
      else if lo = 0 then matcher k p (a # s) c else None)"
  by (simp add: matcher_Rep)


lemma lastp_Nil [simp]: "lastp p [] = p" by (simp add: lastp_def)
lemma lastp_Cons [simp]: "lastp p (a # w) = lastp (Some a) w" by (simp add: lastp_def)
lemma lastp_append [simp]: "lastp p (u @ v) = lastp (lastp p u) v" by (simp add: lastp_def)


lemma within_simps [simp]: "within None n" "within (Some h) n \<longleftrightarrow> n \<le> h"
  by (simp_all add: within_def)

lemma within_zero [simp]: "within hi 0"
  by (simp add: within_def split: option.splits)

lemma within_dec: "within (dec hi) n \<longleftrightarrow> (hi \<noteq> Some 0 \<longrightarrow> within hi (Suc n)) \<and> (hi = Some 0 \<longrightarrow> n = 0)"
  by (cases hi) (auto simp: dec_def)

lemma rep_reject:
  assumes rej: "\<And>p' a s'. P a \<Longrightarrow> matcher k p' (a # s') c = None"
  shows "matcher (Run (Rep P lo hi) # k) p s c =
     (if lo \<le> length (takeWhile P s) \<and> within hi (length (takeWhile P s))
      then matcher k (lastp p (takeWhile P s)) (dropWhile P s) c else None)"
proof (induction s arbitrary: lo hi p)
  case Nil
  then show ?case by simp
next
  case (Cons a s)
  show ?case
  proof (cases "P a")
    case False
    then show ?thesis by simp
  next
    case True
    show ?thesis
    proof (cases "hi = Some 0")
      case True
      with \<open>P a\<close> show ?thesis by (simp add: rej)
    next
      case False
      with \<open>P a\<close> show ?thesis
        by (auto simp: Cons.IH rej within_dec split: option.splits)
    qed
  qed
qed

lemma rep_short:
  "length (takeWhile P s) < lo \<Longrightarrow> matcher (Run (Rep P lo hi) # k) p s c = None"
  by (induction s arbitrary: lo hi p) (auto split: option.splits)

lemma rep_max:
  "lo \<le> length (takeWhile P s) \<Longrightarrow>
   matcher k (lastp p (takeWhile P s)) (dropWhile P s) c = Some r \<Longrightarrow>
   matcher (Run (Rep P lo None) # k) p s c = Some r"
proof (induction s arbitrary: lo p)
  case Nil
  then show ?case by simp
next
  case (Cons a s)
  show ?case
  proof (cases "P a")
    case True
    with Cons.prems have "lo - 1 \<le> length (takeWhile P s)"
      and "matcher k (lastp (Some a) (takeWhile P s)) (dropWhile P s) c = Some r"
      by auto
    then have "matcher (Run (Rep P (lo - 1) None) # k) (Some a) s c = Some r"
      by (rule Cons.IH)
    with True show ?thesis by (simp add: dec_def)
  next
    case False
    with Cons.prems show ?thesis by simp
  qed
qed

lemma last_takeWhile: "takeWhile P s \<noteq> [] \<Longrightarrow> P (last (takeWhile P s))"
  by (induction s) (auto split: if_splits)

lemma lastp_takeWhile_char:
  "takeWhile (is_char a) s \<noteq> [] \<Longrightarrow> lastp p (takeWhile (is_char a) s) = Some a"
  using last_takeWhile [of "is_char a" s] by (simp add: lastp_def is_char_def)

lemma length_dropWhile_less: "takeWhile P s \<noteq> [] \<Longrightarrow> length (dropWhile P s) < length s"
  by (metis append_self_conv2 length_append length_greater_0_conv less_add_same_cancel2
      takeWhile_dropWhile_id)

lemma take_length_takeWhile: "take (length s - length (dropWhile P s)) s = takeWhile P s"
proof -
  have "length s - length (dropWhile P s) = length (takeWhile P s)"
    by (metis add_diff_cancel_right' length_append takeWhile_dropWhile_id)
  then show ?thesis
    by (metis append_eq_conv_conj takeWhile_dropWhile_id)
qed

lemma match_blank:
  "matcher (map Run re_blank) p s c =
     (if 3 \<le> length (takeWhile (is_char LF) s)
      then Some (Some LF, dropWhile (is_char LF) s, c) else None)"
proof (cases "3 \<le> length (takeWhile (is_char LF) s)")
  case True
  then have "takeWhile (is_char LF) s \<noteq> []" by auto
  then have "matcher [] (lastp p (takeWhile (is_char LF) s)) (dropWhile (is_char LF) s) c
      = Some (Some LF, dropWhile (is_char LF) s, c)"
    by (simp add: lastp_takeWhile_char)
  with True show ?thesis by (simp add: re_blank_def rep_max)
next
  case False
  then show ?thesis by (simp add: re_blank_def rep_short)
qed

lemma space_facts [simp]:
  "is_space LF" "\<not> is_space DASH" "\<not> is_space HASH" "is_space SPACE" "\<not> is_space BACKTICK"
  "\<not> is_word LF" "\<not> is_word BACKTICK" "is_line_terminator LF" "\<not> is_line_terminator SPACE"
  "\<not> is_line_terminator HASH" "\<not> is_line_terminator DASH"
  by (simp_all add: is_space_def is_word_def is_line_terminator_def)

lemma terminator_is_space: "is_line_terminator a \<Longrightarrow> is_space a"
  by (auto simp: is_space_def is_line_terminator_def)

lemma not_space_is_dot: "\<not> is_space a \<Longrightarrow> is_dot a"
  using terminator_is_space by (auto simp: is_dot_def)

lemma word_not_space: "is_word a \<Longrightarrow> \<not> is_space a"
  unfolding is_word_def is_space_def
  by (auto simp: word_le_nat_alt)


section \<open>Step 2: the blank line after a fence\<close>

declare replace_from.simps [simp del]

lemma fence_tail:
  "matcher [Run (Chr (is_char LF)), Run (Chr (is_char LF))] p s c =
     map_option (\<lambda>r. (Some LF, r, c)) (two_lf s)"
  by (cases s rule: two_lf.cases) (auto simp: is_char_def)

lemma two_lf_word: "is_word a \<Longrightarrow> two_lf (a # s) = None"
  by (cases s) auto

lemma match_fence:
  "matcher (map Run re_fence) p s (\<lambda>_. None) =
     map_option (\<lambda>(w, r). (Some LF, r, if w = [] then (\<lambda>_. None) else (\<lambda>_. None)(1 \<mapsto> w)))
       (fence_match s)"
proof (cases s rule: fence_match.cases)
  case (1 a b c r)
  let ?k = "[Close 1 r, Progress (length r), Run (Chr (is_char LF)), Run (Chr (is_char LF))]"
  let ?c = "clear [1] (\<lambda>_. None)"
  have rej: "\<And>p' a s'. is_word a \<Longrightarrow> matcher ?k p' (a # s') ?c = None"
    by (auto simp: is_char_def)
  have grp: "matcher (Run (Rep is_word 1 None) # ?k) (Some BACKTICK) r ?c =
      (if takeWhile is_word r = [] then None
       else map_option (\<lambda>r'. (Some LF, r', (\<lambda>_. None)(1 \<mapsto> takeWhile is_word r)))
              (two_lf (dropWhile is_word r)))"
  proof -
    have "matcher (Run (Rep is_word 1 None) # ?k) (Some BACKTICK) r ?c =
      (if 1 \<le> length (takeWhile is_word r) \<and> within None (length (takeWhile is_word r))
       then matcher ?k (lastp (Some BACKTICK) (takeWhile is_word r)) (dropWhile is_word r) ?c
       else None)"
      by (rule rep_reject) (rule rej)
    then show ?thesis
      using length_dropWhile_less [of is_word r]
      by (auto simp: fence_tail take_length_takeWhile clear_def Suc_le_eq
               simp del: matcher.simps(2))
  qed
  have skip: "matcher [Run (Chr (is_char LF)), Run (Chr (is_char LF))] (Some BACKTICK) r (\<lambda>_. None) =
      (if takeWhile is_word r = []
       then map_option (\<lambda>r'. (Some LF, r', \<lambda>_. None)) (two_lf (dropWhile is_word r))
       else None)"
    by (cases r) (auto simp: fence_tail two_lf_word simp del: matcher.simps(2))
  show ?thesis
    using grp skip 1
    by (auto simp: re_fence_def is_char_def option.map_comp comp_def split: option.splits)
qed (simp_all add: re_fence_def)


lemma two_lf_Some: "two_lf s = Some r \<longleftrightarrow> s = LF # LF # r"
  by (cases s rule: two_lf.cases) auto

lemma fence_match_Some:
  "fence_match s = Some (w, r) \<longleftrightarrow>
     s = [BACKTICK, BACKTICK, BACKTICK] @ w @ LF # LF # r \<and> (\<forall>c \<in> set w. is_word c)"
proof
  assume m: "fence_match s = Some (w, r)"
  then obtain t where s: "s = BACKTICK # BACKTICK # BACKTICK # t"
    by (cases s rule: fence_match.cases) (auto split: if_splits)
  with m have "w = takeWhile is_word t" "dropWhile is_word t = LF # LF # r"
    by (auto simp: two_lf_Some)
  then have "t = w @ LF # LF # r" "\<forall>c \<in> set w. is_word c"
    by (metis takeWhile_dropWhile_id, metis set_takeWhileD)
  with s show "s = [BACKTICK, BACKTICK, BACKTICK] @ w @ LF # LF # r \<and> (\<forall>c \<in> set w. is_word c)"
    by simp
next
  assume "s = [BACKTICK, BACKTICK, BACKTICK] @ w @ LF # LF # r \<and> (\<forall>c \<in> set w. is_word c)"
  then show "fence_match s = Some (w, r)"
    by (simp add: takeWhile_append2 dropWhile_append2)
qed

lemma fence_match_shorter: "fence_match s = Some (w, r) \<Longrightarrow> length r < length s"
  by (simp add: fence_match_Some)

lemma replace_fence:
  "replace_from re_fence tp_fence p s =
     (case fence_match s of
        Some (w, r) \<Rightarrow> [BACKTICK, BACKTICK, BACKTICK] @ w @ LF # replace_from re_fence tp_fence (Some LF) r
      | None \<Rightarrow> (case s of [] \<Rightarrow> [] | a # r \<Rightarrow> a # replace_from re_fence tp_fence (Some a) r))"
  by (subst replace_from.simps)
     (auto simp: match_fence tp_fence_def dest: fence_match_shorter split: option.splits)

lemma replace_fence_prev: "replace_from re_fence tp_fence p s = step2 s"
proof (induction s arbitrary: p rule: length_induct)
  case (1 s)
  have "replace_from re_fence tp_fence p s = replace_from re_fence tp_fence None s"
    by (subst (1 2) replace_fence)
       (auto simp: step2_def replace_def 1 dest: fence_match_shorter split: option.splits list.splits)
  then show ?case
    by (simp add: step2_def replace_def)
qed

lemma step2_unfold:
  "step2 s =
     (case fence_match s of
        Some (w, r) \<Rightarrow> [BACKTICK, BACKTICK, BACKTICK] @ w @ LF # step2 r
      | None \<Rightarrow> (case s of [] \<Rightarrow> [] | a # r \<Rightarrow> a # step2 r))"
  using replace_fence [of None s]
  by (auto simp: replace_fence_prev split: option.splits list.splits)


lemma step2_Nil [simp]: "step2 [] = []"
  by (subst step2_unfold) simp

lemma two_lf_fence [simp]: "two_lf (BACKTICK # y) = None"
  by (cases y) auto

lemma two_lf_append_fence:
  "d \<noteq> [] \<Longrightarrow> two_lf (d @ BACKTICK # y) = map_option (\<lambda>r. r @ BACKTICK # y) (two_lf d)"
  by (cases d rule: two_lf.cases) auto

lemma fence_match_append:
  assumes "pre \<noteq> []"
  shows "fence_match (pre @ BACKTICK # BACKTICK # BACKTICK # y) =
     map_option (\<lambda>(w, r). (w, r @ BACKTICK # BACKTICK # BACKTICK # y)) (fence_match pre)"
proof (cases pre rule: fence_match.cases)
  case (1 a b c r)
  let ?x = "BACKTICK # BACKTICK # BACKTICK # y"
  show ?thesis
  proof (cases "\<forall>x \<in> set r. is_word x")
    case True
    then have t: "takeWhile is_word (r @ ?x) = r" "dropWhile is_word (r @ ?x) = ?x"
      "dropWhile is_word r = []"
      by (simp_all add: takeWhile_append2 dropWhile_append2)
    show ?thesis by (simp add: 1 t)
  next
    case False
    then have t: "takeWhile is_word (r @ ?x) = takeWhile is_word r"
      "dropWhile is_word (r @ ?x) = dropWhile is_word r @ ?x" "dropWhile is_word r \<noteq> []"
      by (auto simp: takeWhile_append1 dropWhile_append1 dropWhile_eq_Nil_conv)
    show ?thesis
      using False by (simp add: 1 t(1,2) two_lf_append_fence option.map_comp comp_def)
  qed
qed (use assms in auto)

lemma step2_at_fence:
  assumes "\<forall>c \<in> set tag. is_word c"
  shows "step2 (pre @ [BACKTICK, BACKTICK, BACKTICK] @ tag @ [LF, LF] @ rest) =
     step2 pre @ [BACKTICK, BACKTICK, BACKTICK] @ tag @ [LF] @ step2 rest"
proof (induction pre rule: length_induct)
  case (1 pre)
  let ?x = "[BACKTICK, BACKTICK, BACKTICK] @ tag @ [LF, LF] @ rest"
  show ?case
  proof (cases "pre = []")
    case True
    have "fence_match ?x = Some (tag, rest)"
      using assms by (simp add: fence_match_Some)
    with True show ?thesis
      by (subst step2_unfold) simp
  next
    case False
    then obtain a pre' where pre: "pre = a # pre'"
      by (cases pre) auto
    have m: "fence_match (pre @ ?x) =
        map_option (\<lambda>(w, r). (w, r @ ?x)) (fence_match pre)"
      using fence_match_append [OF False, of "tag @ [LF, LF] @ rest"] by simp
    show ?thesis
    proof (cases "fence_match pre")
      case None
      with m have "fence_match (pre @ ?x) = None" by simp
      then have "step2 (pre @ ?x) = a # step2 (pre' @ ?x)"
        by (subst step2_unfold) (simp add: pre)
      moreover have "step2 pre = a # step2 pre'"
        using None by (subst step2_unfold) (simp add: pre)
      ultimately show ?thesis
        using 1 pre by simp
    next
      case (Some wr)
      obtain w r where wr: "wr = (w, r)" by (cases wr)
      with m Some have "fence_match (pre @ ?x) = Some (w, r @ ?x)" by simp
      then have "step2 (pre @ ?x) = [BACKTICK, BACKTICK, BACKTICK] @ w @ LF # step2 (r @ ?x)"
        by (subst step2_unfold) simp
      moreover have "step2 pre = [BACKTICK, BACKTICK, BACKTICK] @ w @ LF # step2 r"
        using Some wr by (subst step2_unfold) simp
      moreover have "length r < length pre"
        using Some wr by (simp add: fence_match_shorter)
      ultimately show ?thesis
        using 1 by simp
    qed
  qed
qed

lemma step2_unchanged:
  assumes "\<forall>u t v. (\<forall>c \<in> set t. is_word c) \<longrightarrow>
             s \<noteq> u @ [BACKTICK, BACKTICK, BACKTICK] @ t @ [LF, LF] @ v"
  shows "step2 s = s"
  using assms
proof (induction s)
  case Nil
  show ?case by (subst step2_unfold) simp
next
  case (Cons a s)
  have "fence_match (a # s) = None"
  proof (cases "fence_match (a # s)")
    case (Some wr)
    obtain w r where "wr = (w, r)" by (cases wr)
    with Some have "a # s = [] @ [BACKTICK, BACKTICK, BACKTICK] @ w @ [LF, LF] @ r"
      "\<forall>c \<in> set w. is_word c"
      by (simp_all add: fence_match_Some)
    with Cons.prems show ?thesis by blast
  qed simp
  moreover have "step2 s = s"
  proof (rule Cons.IH, intro allI impI)
    fix u t v
    assume "\<forall>c \<in> set t. is_word c"
    with Cons.prems have "a # s \<noteq> (a # u) @ [BACKTICK, BACKTICK, BACKTICK] @ t @ [LF, LF] @ v"
      by blast
    then show "s \<noteq> u @ [BACKTICK, BACKTICK, BACKTICK] @ t @ [LF, LF] @ v"
      by simp
  qed
  ultimately show ?case
    by (subst step2_unfold) simp
qed

text \<open>
  Claim C3, as amended. Step 2 removes the second of two line feeds that follow three
  backticks and an optional run of word characters, wherever this occurs in the text: the
  pattern cannot tell the fence that opens a code block from the fence that closes it.
  A text in which this never occurs is left unchanged.
\<close>

theorem fence_blank_line:
  "((\<forall>c \<in> set tag. is_word c) \<longrightarrow>
      step2 (pre @ js ''```'' @ tag @ [LF, LF] @ rest) =
        step2 pre @ js ''```'' @ tag @ [LF] @ step2 rest) \<and>
   ((\<forall>u t v. (\<forall>c \<in> set t. is_word c) \<longrightarrow> s \<noteq> u @ js ''```'' @ t @ [LF, LF] @ v) \<longrightarrow>
      step2 s = s)"
proof -
  have "js ''```'' = [BACKTICK, BACKTICK, BACKTICK]"
    by (simp add: js_def)
  then show ?thesis
    using step2_at_fence [of tag pre rest] step2_unchanged [of s] by simp
qed

theorem fence_blank_line_witness:
  "step2 (js ''intro\<newline>```js\<newline>\<newline>let x\<newline>'') = js ''intro\<newline>```js\<newline>let x\<newline>'' \<and>
   step2 (js ''one\<newline>\<newline>two'') = js ''one\<newline>\<newline>two''"
proof -
  have 1: "\<forall>c \<in> set (js ''js''). is_word c"
    by (simp add: js_def is_word_def)
  have 2: "\<forall>u t v. (\<forall>c \<in> set t. is_word c) \<longrightarrow>
      js ''one\<newline>\<newline>two'' \<noteq> u @ js ''```'' @ t @ [LF, LF] @ v"
  proof (intro allI impI notI)
    fix u t v
    assume "js ''one\<newline>\<newline>two'' = u @ js ''```'' @ t @ [LF, LF] @ v"
    moreover have "BACKTICK \<in> set (u @ js ''```'' @ t @ [LF, LF] @ v)"
      by (simp add: js_def)
    ultimately have "BACKTICK \<in> set (js ''one\<newline>\<newline>two'')"
      by simp
    then show False
      by (simp add: js_def)
  qed
  have 3: "step2 (js ''intro\<newline>'') = js ''intro\<newline>''" "step2 (js ''let x\<newline>'') = js ''let x\<newline>''"
    by code_simp+
  have 4: "js ''intro\<newline>'' @ js ''```'' @ js ''js'' @ [LF, LF] @ js ''let x\<newline>'' =
      js ''intro\<newline>```js\<newline>\<newline>let x\<newline>''"
    "js ''intro\<newline>'' @ js ''```'' @ js ''js'' @ [LF] @ js ''let x\<newline>'' =
      js ''intro\<newline>```js\<newline>let x\<newline>''"
    by (simp_all add: js_def)
  from fence_blank_line [of "js ''js''" "js ''intro\<newline>''" "js ''let x\<newline>''" "js ''one\<newline>\<newline>two''"]
    1 2 3 4 show ?thesis
    by simp
qed

text \<open>
  The claim as stated fails after a closing fence: the blank line between the end of the
  code block and the next paragraph is removed as well.
\<close>

theorem fence_blank_line_counterexample:
  "step2 (js ''```\<newline>x\<newline>```\<newline>\<newline>y'') = js ''```\<newline>x\<newline>```\<newline>y'' \<and>
   step2 (js ''```\<newline>x\<newline>```\<newline>\<newline>y'') \<noteq> js ''```\<newline>x\<newline>```\<newline>\<newline>y''"
  by code_simp


section \<open>Step 3: bullet lines without content\<close>

lemma blank_tail:
  "matcher [Run (Rep is_space 0 None), Run (Chr (is_char LF))] p s c =
     map_option (\<lambda>r. (Some LF, r, c)) (skip_blank s)"
  by (induction s arbitrary: p) (auto simp: is_char_def dec_def split: option.splits)

lemma match_list:
  "matcher (map Run re_list) p s (\<lambda>_. None) =
     (if bol p
      then map_option (\<lambda>(i, r). (Some LF, r, (\<lambda>_. None)(1 \<mapsto> i))) (list_match s)
      else None)"
proof -
  let ?k = "[Close 1 s, Run (Chr (is_char DASH)), Run (Rep is_space 0 None), Run (Chr (is_char LF))]"
  let ?c = "\<lambda>_::nat. None :: jsstring option"
  have rej: "\<And>p' a s'. is_space a \<Longrightarrow> matcher ?k p' (a # s') ?c = None"
    by (auto simp: is_char_def)
  have rep: "matcher (Run (Rep is_space 0 None) # ?k) p s ?c =
      (if 0 \<le> length (takeWhile is_space s) \<and> within None (length (takeWhile is_space s))
       then matcher ?k (lastp p (takeWhile is_space s)) (dropWhile is_space s) ?c
       else None)"
    by (rule rep_reject) (rule rej)
  have cont: "matcher ?k p' (dropWhile is_space s) ?c =
      map_option (\<lambda>(i, r). (Some LF, r, ?c(1 \<mapsto> i))) (list_match s)" for p'
  proof (cases "dropWhile is_space s")
    case Nil
    show ?thesis
      by (simp add: Nil list_match_def)
  next
    case (Cons a r)
    have "take (length s - length (dropWhile is_space s)) s = takeWhile is_space s"
      by (rule take_length_takeWhile)
    then show ?thesis
      by (simp add: Cons list_match_def blank_tail is_char_def option.map_comp comp_def
          del: matcher_Rep_Nil matcher_Rep_Cons)
  qed
  from rep have rep': "matcher (Run (Rep is_space 0 None) # ?k) p s ?c =
      matcher ?k (lastp p (takeWhile is_space s)) (dropWhile is_space s) ?c"
    by (simp del: matcher.simps matcher_Rep_Nil matcher_Rep_Cons)
  have head: "matcher (map Run re_list) p s ?c =
      (if bol p then matcher (Run (Rep is_space 0 None) # ?k) p s ?c else None)"
    by (simp add: re_list_def del: matcher_Rep_Nil matcher_Rep_Cons)
  show ?thesis
    unfolding head rep' cont by simp
qed

lemma skip_blank_shorter: "skip_blank s = Some r \<Longrightarrow> length r < length s"
  by (induction s arbitrary: r) (auto split: if_splits option.splits simp: less_Suc_eq)

lemma list_match_shorter: "list_match s = Some (i, r) \<Longrightarrow> length r < length s"
proof -
  assume m: "list_match s = Some (i, r)"
  then obtain t where t: "dropWhile is_space s = DASH # t" "skip_blank t = Some r"
    by (auto simp: list_match_def split: list.splits if_splits)
  have "length (dropWhile is_space s) \<le> length s"
    by (rule length_dropWhile_le)
  with t skip_blank_shorter [of t r] show ?thesis
    by simp
qed

text \<open>Copying one code unit when no match starts at the current position.\<close>

lemma replace_list:
  "replace_from re_list tp_list p s =
     (case (if bol p then list_match s else None) of
        Some (i, r) \<Rightarrow> i @ [DASH, SPACE] @ replace_from re_list tp_list (Some LF) r
      | None \<Rightarrow> (case s of [] \<Rightarrow> [] | a # r \<Rightarrow> a # replace_from re_list tp_list (Some a) r))"
  by (subst replace_from.simps)
     (auto simp: match_list tp_list_def dest: list_match_shorter split: option.splits)


lemma replace_list_bol:
  "bol p = bol p' \<Longrightarrow> replace_from re_list tp_list p s = replace_from re_list tp_list p' s"
  by (subst (1 2) replace_list) simp

lemma skip_blank_None: "skip_blank s = None \<longleftrightarrow> LF \<notin> set (takeWhile is_space s)"
  by (induction s) (auto split: option.splits)

lemma skip_blank_line:
  assumes "\<forall>c \<in> set blank. is_space c" and "LF \<notin> set (takeWhile is_space rest)"
  shows "skip_blank (blank @ LF # rest) = Some rest"
proof -
  from assms(2) have "skip_blank rest = None"
    by (simp add: skip_blank_None)
  with assms(1) show ?thesis
    by (induction blank) auto
qed

lemma skip_blank_append:
  assumes "\<forall>c \<in> set ind. is_space c \<and> c \<noteq> LF"
  shows "skip_blank (r @ ind @ DASH # z) = map_option (\<lambda>x. x @ ind @ DASH # z) (skip_blank r)"
proof (induction r)
  case Nil
  have "takeWhile is_space (ind @ DASH # z) = ind"
    using assms by (simp add: takeWhile_append2)
  with assms have "LF \<notin> set (takeWhile is_space (ind @ DASH # z))"
    by auto
  then show ?case
    by (simp add: skip_blank_None [symmetric])
next
  case (Cons a r)
  then show ?case
    by (auto split: option.splits)
qed

lemma list_match_suffix: "list_match s = Some (i, r) \<Longrightarrow> \<exists>u. s = u @ r \<and> u \<noteq> []"
proof -
  have skip: "skip_blank t = Some r \<Longrightarrow> \<exists>u. t = u @ r" for t
  proof (induction t)
    case (Cons a t)
    then show ?case
      by (auto split: if_splits option.splits intro: exI [of _ "[a]"])
  qed simp
  assume "list_match s = Some (i, r)"
  then obtain t where t: "dropWhile is_space s = DASH # t" "skip_blank t = Some r"
    by (auto simp: list_match_def split: list.splits if_splits)
  from skip [OF t(2)] obtain u where "t = u @ r" ..
  with t(1) have "s = (takeWhile is_space s @ DASH # u) @ r"
    by (metis append.assoc append_Cons takeWhile_dropWhile_id)
  then show ?thesis
    by blast
qed

lemma list_match_spaces: "\<forall>c \<in> set q. is_space c \<Longrightarrow> list_match q = None"
proof -
  assume "\<forall>c \<in> set q. is_space c"
  then have d: "dropWhile is_space q = []"
    by simp
  show ?thesis
    unfolding list_match_def d by simp
qed

lemma replace_list_spaces:
  "\<forall>c \<in> set q. is_space c \<Longrightarrow> replace_from re_list tp_list p q = q"
  by (induction q arbitrary: p) (subst replace_list, simp add: list_match_spaces)+

text \<open>A bullet line at a line start, seen from any position of the text before it.\<close>

lemma replace_list_at_line:
  assumes ind: "\<forall>c \<in> set ind. is_space c \<and> c \<noteq> LF"
    and blank: "\<forall>c \<in> set blank. is_space c"
    and rest: "LF \<notin> set (takeWhile is_space rest)"
  shows "(q = [] \<longrightarrow> bol p) \<Longrightarrow> (q \<noteq> [] \<longrightarrow> is_line_terminator (last q)) \<Longrightarrow>
     replace_from re_list tp_list p (q @ ind @ DASH # blank @ LF # rest) =
       replace_from re_list tp_list p q @ ind @ [DASH, SPACE] @
       replace_from re_list tp_list (Some LF) rest"
proof (induction q arbitrary: p rule: length_induct)
  case (1 q)
  let ?x = "ind @ DASH # blank @ LF # rest"
  let ?goal = "replace_from re_list tp_list p (q @ ?x) =
       replace_from re_list tp_list p q @ ind @ [DASH, SPACE] @
       replace_from re_list tp_list (Some LF) rest"
  have spaces: "list_match (q @ ?x) = Some (q @ ind, rest)" if "\<forall>c \<in> set q. is_space c"
  proof -
    have "takeWhile is_space (q @ ?x) = q @ ind" "dropWhile is_space (q @ ?x) = DASH # blank @ LF # rest"
      using that ind by (simp_all add: takeWhile_append2 dropWhile_append2)
    then show ?thesis
      using skip_blank_line [OF blank rest] by (simp add: list_match_def)
  qed
  have other: "list_match (q @ ?x) = map_option (\<lambda>(i, r). (i, r @ ?x)) (list_match q)"
    if "\<not> (\<forall>c \<in> set q. is_space c)"
  proof -
    have t: "takeWhile is_space (q @ ?x) = takeWhile is_space q"
      "dropWhile is_space (q @ ?x) = dropWhile is_space q @ ?x"
      using that by (auto simp: takeWhile_append1 dropWhile_append1)
    from that obtain a r where d: "dropWhile is_space q = a # r"
      by (cases "dropWhile is_space q") (auto simp: dropWhile_eq_Nil_conv)
    show ?thesis
      using skip_blank_append [OF ind, of r "blank @ LF # rest"]
      by (simp add: list_match_def t d option.map_comp comp_def)
  qed
  have copy: ?goal if q: "q = a # q'" and no: "(if bol p then list_match (q @ ?x) else None) = None"
    "(if bol p then list_match q else None) = None" for a q'
  proof -
    have "q' = [] \<longrightarrow> bol (Some a)" "q' \<noteq> [] \<longrightarrow> is_line_terminator (last q')"
      using 1(3) q by (auto simp: bol_def)
    with 1(1) q have "replace_from re_list tp_list (Some a) (q' @ ?x) =
        replace_from re_list tp_list (Some a) q' @ ind @ [DASH, SPACE] @
        replace_from re_list tp_list (Some LF) rest"
      by simp
    moreover have "replace_from re_list tp_list p (q @ ?x) =
        a # replace_from re_list tp_list (Some a) (q' @ ?x)"
      using no(1) by (subst replace_list) (simp add: q)
    moreover have "replace_from re_list tp_list p q = a # replace_from re_list tp_list (Some a) q'"
      using no(2) by (subst replace_list) (simp add: q)
    ultimately show ?thesis
      by simp
  qed
  show ?case
  proof (cases q)
    case Nil
    have "replace_from re_list tp_list p ?x =
        ind @ [DASH, SPACE] @ replace_from re_list tp_list (Some LF) rest"
      using 1(2) spaces [of] Nil by (subst replace_list) simp
    moreover have "replace_from re_list tp_list p [] = []"
      by (subst replace_list) (simp add: list_match_spaces)
    ultimately show ?thesis
      using Nil by simp
  next
    case (Cons a q')
    show ?thesis
    proof (cases "bol p")
      case False
      then show ?thesis
        using copy [OF Cons] by simp
    next
      case True
      show ?thesis
      proof (cases "\<forall>c \<in> set q. is_space c")
        case all: True
        then have "replace_from re_list tp_list p q = q"
          by (rule replace_list_spaces)
        moreover have "replace_from re_list tp_list p (q @ ?x) =
            (q @ ind) @ [DASH, SPACE] @ replace_from re_list tp_list (Some LF) rest"
          using spaces [OF all] True by (subst replace_list) simp
        ultimately show ?thesis
          by simp
      next
        case some: False
        show ?thesis
        proof (cases "list_match q")
          case None
          with other [OF some] True show ?thesis
            using copy [OF Cons] by simp
        next
          case (Some ir)
          obtain i r where ir: "ir = (i, r)" by (cases ir)
          from Some ir list_match_suffix obtain u where u: "q = u @ r" "u \<noteq> []"
            by blast
          then have "length r < length q" "r \<noteq> [] \<longrightarrow> is_line_terminator (last r)"
            using 1(3) Cons by auto
          with 1(1) have "replace_from re_list tp_list (Some LF) (r @ ?x) =
              replace_from re_list tp_list (Some LF) r @ ind @ [DASH, SPACE] @
              replace_from re_list tp_list (Some LF) rest"
            by (simp add: bol_def)
          moreover have "replace_from re_list tp_list p (q @ ?x) =
              i @ [DASH, SPACE] @ replace_from re_list tp_list (Some LF) (r @ ?x)"
            using other [OF some] Some ir True by (subst replace_list) simp
          moreover have "replace_from re_list tp_list p q =
              i @ [DASH, SPACE] @ replace_from re_list tp_list (Some LF) r"
            using Some ir True by (subst replace_list) simp
          ultimately show ?thesis
            by simp
        qed
      qed
    qed
  qed
qed

text \<open>
  Claim C2, as amended. A line that stands at a line start and consists of indentation, a
  bullet marker and blank content is rewritten into the indentation, the marker and one
  space; the line feed that ends the line is removed with the blank content, so that the
  following line continues the bullet line. The text before and after is processed as it
  would be alone. (The next line is taken not to be blank: blank lines after the bullet
  line are removed with it.)
\<close>

theorem bullet_line_joined:
  assumes "pre = [] \<or> is_line_terminator (last pre)"
    and "\<forall>c \<in> set ind. is_space c \<and> c \<noteq> LF"
    and "\<forall>c \<in> set blank. is_space c"
    and "LF \<notin> set (takeWhile is_space rest)"
  shows "step3 (pre @ ind @ js ''-'' @ blank @ [LF] @ rest) =
           step3 pre @ ind @ js ''- '' @ step3 rest"
proof -
  have "replace_from re_list tp_list None (pre @ ind @ DASH # blank @ LF # rest) =
      replace_from re_list tp_list None pre @ ind @ [DASH, SPACE] @
      replace_from re_list tp_list (Some LF) rest"
    using assms(1) by (intro replace_list_at_line assms(2-4)) (auto simp: bol_def)
  moreover have "replace_from re_list tp_list (Some LF) rest = replace_from re_list tp_list None rest"
    by (rule replace_list_bol) (simp add: bol_def)
  ultimately show ?thesis
    by (simp add: step3_def replace_def js_def)
qed

theorem bullet_line_joined_witness:
  "step3 (js ''intro\<newline>  - \<newline>item\<newline>'') = js ''intro\<newline>  - item\<newline>''"
proof -
  have 1: "js ''intro\<newline>'' = [] \<or> is_line_terminator (last (js ''intro\<newline>''))"
    by (simp add: js_def)
  have 2: "\<forall>c \<in> set (js ''  ''). is_space c \<and> c \<noteq> LF"
    by (simp add: js_def)
  have 3: "\<forall>c \<in> set (js '' ''). is_space c"
    by (simp add: js_def)
  have 4: "LF \<notin> set (takeWhile is_space (js ''item\<newline>''))"
    by (simp add: js_def is_space_def)
  have 5: "step3 (js ''intro\<newline>'') = js ''intro\<newline>''" "step3 (js ''item\<newline>'') = js ''item\<newline>''"
    by code_simp+
  have 6: "js ''intro\<newline>'' @ js ''  '' @ js ''-'' @ js '' '' @ [LF] @ js ''item\<newline>'' =
      js ''intro\<newline>  - \<newline>item\<newline>''"
    "js ''intro\<newline>'' @ js ''  '' @ js ''- '' @ js ''item\<newline>'' = js ''intro\<newline>  - item\<newline>''"
    by (simp_all add: js_def)
  from bullet_line_joined [OF 1 2 3 4] 5 6 show ?thesis
    by simp
qed

text \<open>
  The claim as stated fails on the line break: after the step, the bullet line and the line
  after it are one line.
\<close>

theorem bullet_line_joined_counterexample:
  "step3 (js ''- \<newline>next line'') = js ''- next line'' \<and>
   LF \<in> set (js ''- \<newline>next line'') \<and>
   LF \<notin> set (step3 (js ''- \<newline>next line''))"
  by code_simp


section \<open>Step 4: the space after the heading marker\<close>

lemma eol_dropWhile_dot: "eol (dropWhile is_dot s)"
proof (cases "dropWhile is_dot s")
  case Nil
  show ?thesis by (simp add: Nil eol_def)
next
  case (Cons a r)
  then have "\<not> is_dot a"
    by (metis hd_dropWhile list.sel(1) list.distinct(1))
  with Cons show ?thesis by (simp add: eol_def is_dot_def)
qed

lemma text_tail:
  "matcher [Run (Grp 2 [Rep is_dot 1 None]), Run Eol] p s c =
     map_option (\<lambda>(t, r). (Some (last t), r, c(2 \<mapsto> t))) (line_text s)"
proof (cases "takeWhile is_dot s = []")
  case True
  then have "length (takeWhile is_dot s) < 1" by simp
  then have "matcher (Run (Rep is_dot 1 None) # [Close 2 s, Run Eol]) p s c = None"
    by (rule rep_short)
  with True show ?thesis
    by (simp add: line_text_def del: matcher_Rep_Nil matcher_Rep_Cons)
next
  case False
  then have "1 \<le> length (takeWhile is_dot s)"
    by (simp add: Suc_le_eq)
  moreover have "matcher [Close 2 s, Run Eol] (lastp p (takeWhile is_dot s)) (dropWhile is_dot s) c =
      Some (Some (last (takeWhile is_dot s)), dropWhile is_dot s, c(2 \<mapsto> takeWhile is_dot s))"
    using False by (simp add: eol_dropWhile_dot take_length_takeWhile lastp_def)
  ultimately have "matcher (Run (Rep is_dot 1 None) # [Close 2 s, Run Eol]) p s c =
      Some (Some (last (takeWhile is_dot s)), dropWhile is_dot s, c(2 \<mapsto> takeWhile is_dot s))"
    by (rule rep_max)
  with False show ?thesis
    by (simp add: line_text_def del: matcher_Rep_Nil matcher_Rep_Cons)
qed

lemma gap_tail:
  "matcher [Run (Rep is_space (if ok then 0 else 1) None), Run (Grp 2 [Rep is_dot 1 None]), Run Eol]
     p s c =
     map_option (\<lambda>(t, r). (Some (last t), r, c(2 \<mapsto> t))) (gap_text ok s)"
proof (induction s arbitrary: ok p)
  case Nil
  then show ?case
    by (simp add: text_tail line_text_def del: matcher.simps One_nat_def)
next
  case (Cons a s)
  have ih: "matcher [Run (Rep is_space 0 None), Run (Grp 2 [Rep is_dot 1 None]), Run Eol] (Some a) s c =
     map_option (\<lambda>(t, r). (Some (last t), r, c(2 \<mapsto> t))) (gap_text True s)"
    using Cons.IH [of True "Some a"] by (simp only: if_True)
  show ?case
    by (cases ok)
       (simp_all add: ih text_tail dec_def fun_upd_def del: matcher.simps One_nat_def
          split: option.splits)
qed

lemma match_heading:
  "matcher (map Run re_heading) p s (\<lambda>_. None) =
     (if bol p
      then map_option (\<lambda>(h, t, r). (Some (last t), r, (\<lambda>_. None)(1 \<mapsto> h, 2 \<mapsto> t))) (heading_match s)
      else None)"
proof -
  let ?k2 = "[Run (Rep is_space 1 None), Run (Grp 2 [Rep is_dot 1 None]), Run Eol]"
  let ?k = "Close 1 s # ?k2"
  let ?c = "\<lambda>_::nat. None :: jsstring option"
  let ?h = "takeWhile (is_char HASH) s"
  have rej: "\<And>p' a s'. is_char HASH a \<Longrightarrow> matcher ?k p' (a # s') ?c = None"
    by (auto simp: is_char_def)
  have rep: "matcher (Run (Rep (is_char HASH) 1 (Some 6)) # ?k) p s ?c =
      (if 1 \<le> length ?h \<and> within (Some 6) (length ?h)
       then matcher ?k (lastp p ?h) (dropWhile (is_char HASH) s) ?c
       else None)"
    by (rule rep_reject) (rule rej)
  have cont: "matcher ?k p' (dropWhile (is_char HASH) s) ?c =
      map_option (\<lambda>(t, r). (Some (last t), r, ?c(1 \<mapsto> ?h, 2 \<mapsto> t)))
        (gap_text False (dropWhile (is_char HASH) s))" for p'
    using gap_tail [of False p' "dropWhile (is_char HASH) s" "?c(1 \<mapsto> ?h)"]
    by (simp add: take_length_takeWhile del: matcher_Rep_Nil matcher_Rep_Cons matcher.simps(7) One_nat_def)
  have head: "matcher (map Run re_heading) p s ?c =
      (if bol p then matcher (Run (Rep (is_char HASH) 1 (Some 6)) # ?k) p s ?c else None)"
    by (simp add: re_heading_def del: matcher_Rep_Nil matcher_Rep_Cons)
  show ?thesis
    unfolding head rep cont
    by (simp add: heading_match_def Let_def option.map_comp comp_def split_def)
qed


lemma line_text_Some:
  "line_text s = Some (t, r) \<longleftrightarrow> t = takeWhile is_dot s \<and> r = dropWhile is_dot s \<and> t \<noteq> []"
  by (auto simp: line_text_def)

lemma line_text_parts:
  "line_text s = Some (t, r) \<Longrightarrow> s = t @ r \<and> t \<noteq> [] \<and> (\<forall>c \<in> set t. is_dot c) \<and> eol r"
  unfolding line_text_def
  by (auto simp: eol_dropWhile_dot dest: set_takeWhileD split: if_splits)

lemma gap_text_Some:
  "gap_text ok g = Some (t, r) \<Longrightarrow>
     \<exists>w. g = w @ t @ r \<and> (\<not> ok \<longrightarrow> w \<noteq> []) \<and> (\<forall>c \<in> set w. is_space c) \<and> t \<noteq> [] \<and>
         (\<forall>c \<in> set t. is_dot c) \<and> eol r"
proof (induction g arbitrary: ok)
  case Nil
  then show ?case by simp
next
  case (Cons a g)
  have here: ?case if "line_text (a # g) = Some (t, r)" and ok
    using line_text_parts [OF that(1)] that(2)
    by (intro exI [of _ "[]"]) simp
  show ?case
  proof (cases "is_space a")
    case False
    with Cons.prems here show ?thesis
      by (simp split: if_splits)
  next
    case True
    show ?thesis
    proof (cases "gap_text True g")
      case None
      with Cons.prems True here show ?thesis
        by (simp split: if_splits)
    next
      case (Some x)
      with Cons.prems True have "gap_text True g = Some (t, r)"
        by simp
      from Cons.IH [OF this] obtain w where "g = w @ t @ r" "\<forall>c \<in> set w. is_space c"
        "t \<noteq> []" "\<forall>c \<in> set t. is_dot c" "eol r"
        by blast
      with True show ?thesis
        by (intro exI [of _ "a # w"]) simp
    qed
  qed
qed

lemma heading_match_Some:
  assumes "heading_match s = Some (h, t, r)"
  shows "\<exists>w. s = h @ w @ t @ r \<and> h \<noteq> [] \<and> length h \<le> 6 \<and> (\<forall>c \<in> set h. c = HASH) \<and>
           w \<noteq> [] \<and> (\<forall>c \<in> set w. is_space c) \<and> t \<noteq> [] \<and> (\<forall>c \<in> set t. is_dot c) \<and> eol r"
proof -
  from assms have h: "h = takeWhile (is_char HASH) s" "1 \<le> length h" "length h \<le> 6"
    and g: "gap_text False (dropWhile (is_char HASH) s) = Some (t, r)"
    by (auto simp: heading_match_def Let_def split: if_splits)
  from gap_text_Some [OF g] obtain w where w: "dropWhile (is_char HASH) s = w @ t @ r" "w \<noteq> []"
    "\<forall>c \<in> set w. is_space c" "t \<noteq> []" "\<forall>c \<in> set t. is_dot c" "eol r"
    by auto
  have "s = h @ w @ t @ r"
    using h(1) w(1) by (metis takeWhile_dropWhile_id)
  moreover have "\<forall>c \<in> set h. c = HASH"
    unfolding h(1) by (metis is_char_def set_takeWhileD)
  ultimately show ?thesis
    using h(2,3) w by (intro exI [of _ w]) auto
qed

lemma heading_match_shorter: "heading_match s = Some (h, t, r) \<Longrightarrow> length r < length s"
  by (drule heading_match_Some) auto

lemma replace_heading:
  "replace_from re_heading tp_heading p s =
     (case (if bol p then heading_match s else None) of
        Some (h, t, r) \<Rightarrow> h @ [SPACE] @ t @ replace_from re_heading tp_heading (Some (last t)) r
      | None \<Rightarrow> (case s of [] \<Rightarrow> [] | a # r \<Rightarrow> a # replace_from re_heading tp_heading (Some a) r))"
  by (subst replace_from.simps)
     (auto simp: match_heading tp_heading_def dest: heading_match_shorter split: option.splits)


lemma terminator_not_dot: "is_line_terminator a \<Longrightarrow> \<not> is_dot a"
  by (simp add: is_dot_def)

lemma line_text_line:
  assumes "t \<noteq> []" and "\<forall>c \<in> set t. \<not> is_line_terminator c"
    and "rest = [] \<or> is_line_terminator (hd rest)"
  shows "line_text (t @ rest) = Some (t, rest)"
proof -
  have d: "\<forall>c \<in> set t. is_dot c"
    using assms(2) by (simp add: is_dot_def)
  have "takeWhile is_dot rest = []" "dropWhile is_dot rest = rest"
    using assms(3) by (cases rest; auto simp: is_dot_def)+
  with d have "takeWhile is_dot (t @ rest) = t" "dropWhile is_dot (t @ rest) = rest"
    by (simp_all add: takeWhile_append2 dropWhile_append2)
  with assms(1) show ?thesis
    by (simp add: line_text_def)
qed

lemma gap_text_line:
  assumes "\<forall>c \<in> set w. is_space c" and "t \<noteq> []" and "\<not> is_space (hd t)"
    and "\<forall>c \<in> set t. \<not> is_line_terminator c" and "rest = [] \<or> is_line_terminator (hd rest)"
  shows "ok \<or> w \<noteq> [] \<Longrightarrow> gap_text ok (w @ t @ rest) = Some (t, rest)"
  using assms(1)
proof (induction w arbitrary: ok)
  case Nil
  obtain c t' where t: "t = c # t'"
    using assms(2) by (cases t) auto
  with assms(3) have "\<not> is_space c" by simp
  moreover have "line_text (c # t' @ rest) = Some (t, rest)"
    using line_text_line [OF assms(2,4,5)] t by simp
  ultimately show ?case
    using Nil t by simp
next
  case (Cons a w)
  then have "gap_text True (w @ t @ rest) = Some (t, rest)"
    by simp
  with Cons.prems show ?case
    by simp
qed

lemma heading_match_line:
  assumes "h \<noteq> []" and "length h \<le> 6" and "\<forall>c \<in> set h. c = HASH"
    and "w \<noteq> []" and "\<forall>c \<in> set w. is_space c"
    and "t \<noteq> []" and "\<not> is_space (hd t)" and "\<forall>c \<in> set t. \<not> is_line_terminator c"
    and "rest = [] \<or> is_line_terminator (hd rest)"
  shows "heading_match (h @ w @ t @ rest) = Some (h, t, rest)"
proof -
  obtain a w' where w: "w = a # w'"
    using assms(4) by (cases w) auto
  with assms(5) have "\<not> is_char HASH a"
    by (auto simp: is_char_def)
  with assms(3) w have "takeWhile (is_char HASH) (h @ w @ t @ rest) = h"
    "dropWhile (is_char HASH) (h @ w @ t @ rest) = w @ t @ rest"
    by (simp_all add: takeWhile_append2 dropWhile_append2 is_char_def)
  moreover have "gap_text False (w @ t @ rest) = Some (t, rest)"
    using assms(4) by (intro gap_text_line assms) simp
  moreover have "1 \<le> length h"
    using assms(1) by (simp add: Suc_le_eq)
  ultimately show ?thesis
    using assms(2) by (simp add: heading_match_def)
qed

lemma line_text_append:
  assumes "\<exists>c \<in> set g. \<not> is_dot c"
  shows "line_text (g @ x) = map_option (\<lambda>(t, r). (t, r @ x)) (line_text g)"
proof -
  from assms have "takeWhile is_dot (g @ x) = takeWhile is_dot g"
    "dropWhile is_dot (g @ x) = dropWhile is_dot g @ x"
    by (auto simp: takeWhile_append1 dropWhile_append1)
  then show ?thesis
    by (simp add: line_text_def)
qed

lemma gap_text_append:
  "g \<noteq> [] \<Longrightarrow> is_line_terminator (last g) \<Longrightarrow> \<not> (\<forall>c \<in> set g. is_space c) \<Longrightarrow>
   gap_text ok (g @ x) = map_option (\<lambda>(t, r). (t, r @ x)) (gap_text ok g)"
proof (induction g arbitrary: ok)
  case Nil
  then show ?case by simp
next
  case (Cons a g)
  have "last (a # g) \<in> set (a # g)"
    by (rule last_in_set) simp
  with Cons.prems(2) have "\<exists>c \<in> set (a # g). \<not> is_dot c"
    using terminator_not_dot by blast
  then have lt: "line_text ((a # g) @ x) = map_option (\<lambda>(t, r). (t, r @ x)) (line_text (a # g))"
    by (rule line_text_append)
  show ?case
  proof (cases "is_space a")
    case False
    with lt show ?thesis by simp
  next
    case True
    with Cons.prems have "g \<noteq> []" "\<not> (\<forall>c \<in> set g. is_space c)"
      by auto
    with Cons.prems have "g \<noteq> []" "is_line_terminator (last g)" "\<not> (\<forall>c \<in> set g. is_space c)"
      by simp_all
    then have "gap_text True (g @ x) = map_option (\<lambda>(t, r). (t, r @ x)) (gap_text True g)"
      by (rule Cons.IH)
    with lt True show ?thesis
      by (cases "gap_text True g") auto
  qed
qed

lemma heading_match_append:
  assumes "q \<noteq> []" and "is_line_terminator (last q)"
    and "\<not> (\<exists>m b. q = m @ b \<and> m \<noteq> [] \<and> length m \<le> 6 \<and> (\<forall>c \<in> set m. c = HASH) \<and>
               b \<noteq> [] \<and> (\<forall>c \<in> set b. is_space c))"
  shows "heading_match (q @ x) = map_option (\<lambda>(h, t, r). (h, t, r @ x)) (heading_match q)"
proof -
  let ?m = "takeWhile (is_char HASH) q"
  let ?g = "dropWhile (is_char HASH) q"
  have "last q \<in> set q"
    using assms(1) by (rule last_in_set)
  moreover have "\<not> is_char HASH (last q)"
    using assms(2) by (auto simp: is_char_def)
  ultimately have nh: "\<exists>c \<in> set q. \<not> is_char HASH c"
    by blast
  then have tk: "takeWhile (is_char HASH) (q @ x) = ?m" "dropWhile (is_char HASH) (q @ x) = ?g @ x"
    by (auto simp: takeWhile_append1 dropWhile_append1)
  from nh have g: "?g \<noteq> []"
    by (auto simp: dropWhile_eq_Nil_conv)
  have q: "q = ?m @ ?g"
    by simp
  show ?thesis
  proof (cases "1 \<le> length ?m \<and> length ?m \<le> 6")
    case False
    then show ?thesis
      by (auto simp: heading_match_def tk)
  next
    case True
    have "\<forall>c \<in> set ?m. c = HASH"
      by (metis is_char_def set_takeWhileD)
    with True g q assms(3) have "\<not> (\<forall>c \<in> set ?g. is_space c)"
      by (metis One_nat_def Suc_le_eq length_greater_0_conv)
    moreover have "last ?g = last q"
      using g q by (metis last_appendR)
    ultimately have "gap_text False (?g @ x) = map_option (\<lambda>(t, r). (t, r @ x)) (gap_text False ?g)"
      using g assms(2) by (intro gap_text_append) simp_all
    with True show ?thesis
      by (simp add: heading_match_def tk option.map_comp comp_def split_def)
  qed
qed


lemma replace_heading_rest:
  assumes "rest = [] \<or> is_line_terminator (hd rest)"
  shows "replace_from re_heading tp_heading p rest = replace_from re_heading tp_heading None rest"
proof -
  have "takeWhile (is_char HASH) rest = []"
    using assms by (cases rest) (auto simp: is_char_def)
  then have "heading_match rest = None"
    by (simp add: heading_match_def)
  then show ?thesis
    by (subst (1 2) replace_heading) simp
qed

text \<open>A heading line at a line start, seen from any position of the text before it.\<close>

lemma replace_heading_at_line:
  assumes "h \<noteq> []" and "length h \<le> 6" and "\<forall>c \<in> set h. c = HASH"
    and "w \<noteq> []" and "\<forall>c \<in> set w. is_space c"
    and "t \<noteq> []" and "\<not> is_space (hd t)" and "\<forall>c \<in> set t. \<not> is_line_terminator c"
    and "rest = [] \<or> is_line_terminator (hd rest)"
  shows "(q = [] \<longrightarrow> bol p) \<Longrightarrow> (q \<noteq> [] \<longrightarrow> is_line_terminator (last q)) \<Longrightarrow>
     \<not> (\<exists>u m b. q = u @ m @ b \<and> (if u = [] then bol p else is_line_terminator (last u)) \<and>
           m \<noteq> [] \<and> length m \<le> 6 \<and> (\<forall>c \<in> set m. c = HASH) \<and> b \<noteq> [] \<and> (\<forall>c \<in> set b. is_space c)) \<Longrightarrow>
     replace_from re_heading tp_heading p (q @ h @ w @ t @ rest) =
       replace_from re_heading tp_heading p q @ h @ [SPACE] @ t @
       replace_from re_heading tp_heading (Some (last t)) rest"
proof (induction q arbitrary: p rule: length_induct)
  case (1 q)
  let ?x = "h @ w @ t @ rest"
  let ?R = "replace_from re_heading tp_heading"
  let ?tail = "h @ [SPACE] @ t @ ?R (Some (last t)) rest"
  note nb = 1(4)
  have copy: "?R p (q @ ?x) = ?R p q @ ?tail"
    if q: "q = a # q'" and no: "(if bol p then heading_match (q @ ?x) else None) = None"
      "(if bol p then heading_match q else None) = None" for a q'
  proof -
    have "q' = [] \<longrightarrow> bol (Some a)" "q' \<noteq> [] \<longrightarrow> is_line_terminator (last q')"
      using 1(3) q by (auto simp: bol_def)
    moreover have "\<not> (\<exists>u m b. q' = u @ m @ b \<and>
        (if u = [] then bol (Some a) else is_line_terminator (last u)) \<and>
        m \<noteq> [] \<and> length m \<le> 6 \<and> (\<forall>c \<in> set m. c = HASH) \<and> b \<noteq> [] \<and> (\<forall>c \<in> set b. is_space c))"
    proof
      assume "\<exists>u m b. q' = u @ m @ b \<and>
        (if u = [] then bol (Some a) else is_line_terminator (last u)) \<and>
        m \<noteq> [] \<and> length m \<le> 6 \<and> (\<forall>c \<in> set m. c = HASH) \<and> b \<noteq> [] \<and> (\<forall>c \<in> set b. is_space c)"
      then obtain u m b where u: "q' = u @ m @ b"
        "if u = [] then bol (Some a) else is_line_terminator (last u)"
        "m \<noteq> []" "length m \<le> 6" "\<forall>c \<in> set m. c = HASH" "b \<noteq> []" "\<forall>c \<in> set b. is_space c"
        by blast
      have "q = (a # u) @ m @ b"
        using q u(1) by simp
      moreover have "is_line_terminator (last (a # u))"
        using u(2) by (auto simp: bol_def split: if_splits)
      ultimately show False
        using nb u(3-7) by (metis list.distinct(1))
    qed
    ultimately have "?R (Some a) (q' @ ?x) = ?R (Some a) q' @ ?tail"
      using 1(1) q by simp
    moreover have "?R p (q @ ?x) = a # ?R (Some a) (q' @ ?x)"
      using no(1) by (subst replace_heading) (simp add: q)
    moreover have "?R p q = a # ?R (Some a) q'"
      using no(2) by (subst replace_heading) (simp add: q)
    ultimately show ?thesis
      by simp
  qed
  show ?case
  proof (cases q)
    case Nil
    have "heading_match ?x = Some (h, t, rest)"
      by (rule heading_match_line) (rule assms)+
    then have "?R p ?x = ?tail"
      using 1(2) Nil by (subst replace_heading) simp
    moreover have "?R p [] = []"
      by (subst replace_heading) (simp add: heading_match_def)
    ultimately show ?thesis
      using Nil by simp
  next
    case (Cons a q')
    show ?thesis
    proof (cases "bol p")
      case False
      then show ?thesis
        using copy [OF Cons] by simp
    next
      case True
      have "\<not> (\<exists>m b. q = m @ b \<and> m \<noteq> [] \<and> length m \<le> 6 \<and> (\<forall>c \<in> set m. c = HASH) \<and>
               b \<noteq> [] \<and> (\<forall>c \<in> set b. is_space c))"
      proof
        assume "\<exists>m b. q = m @ b \<and> m \<noteq> [] \<and> length m \<le> 6 \<and> (\<forall>c \<in> set m. c = HASH) \<and>
               b \<noteq> [] \<and> (\<forall>c \<in> set b. is_space c)"
        then obtain m b where "q = [] @ m @ b" "m \<noteq> []" "length m \<le> 6" "\<forall>c \<in> set m. c = HASH"
          "b \<noteq> []" "\<forall>c \<in> set b. is_space c"
          by auto
        with nb True show False
          by (metis (full_types))
      qed
      with 1(3) Cons have app: "heading_match (q @ ?x) =
          map_option (\<lambda>(h, t, r). (h, t, r @ ?x)) (heading_match q)"
        by (intro heading_match_append) simp_all
      show ?thesis
      proof (cases "heading_match q")
        case None
        with app True show ?thesis
          using copy [OF Cons] by simp
      next
        case (Some m)
        obtain h' t' r where m: "m = (h', t', r)" by (cases m)
        from heading_match_Some Some m obtain w' where parts: "q = h' @ w' @ t' @ r" "h' \<noteq> []"
          "t' \<noteq> []" "\<forall>c \<in> set t'. is_dot c"
          by blast
        have dot: "is_dot (last t')"
          using parts(3,4) by simp
        have r: "r \<noteq> []"
        proof
          assume "r = []"
          with parts(1,3) have "last q = last t'" by simp
          with dot 1(3) Cons show False
            by (simp add: is_dot_def)
        qed
        with parts(1) have "last r = last q" "length r < length q"
          using parts(2) by simp_all
        with 1(3) Cons r have "r = [] \<longrightarrow> bol (Some (last t'))" "r \<noteq> [] \<longrightarrow> is_line_terminator (last r)"
          by simp_all
        moreover have "\<not> (\<exists>u m b. r = u @ m @ b \<and>
            (if u = [] then bol (Some (last t')) else is_line_terminator (last u)) \<and>
            m \<noteq> [] \<and> length m \<le> 6 \<and> (\<forall>c \<in> set m. c = HASH) \<and> b \<noteq> [] \<and> (\<forall>c \<in> set b. is_space c))"
        proof
          assume "\<exists>u m b. r = u @ m @ b \<and>
            (if u = [] then bol (Some (last t')) else is_line_terminator (last u)) \<and>
            m \<noteq> [] \<and> length m \<le> 6 \<and> (\<forall>c \<in> set m. c = HASH) \<and> b \<noteq> [] \<and> (\<forall>c \<in> set b. is_space c)"
          then obtain u m b where u: "r = u @ m @ b"
            "if u = [] then bol (Some (last t')) else is_line_terminator (last u)"
            "m \<noteq> []" "length m \<le> 6" "\<forall>c \<in> set m. c = HASH" "b \<noteq> []" "\<forall>c \<in> set b. is_space c"
            by blast
          from u(2) dot have un: "u \<noteq> []" "is_line_terminator (last u)"
            by (auto simp: bol_def is_dot_def split: if_splits)
          have "q = ((h' @ w' @ t') @ u) @ m @ b"
            using parts(1) u(1) by simp
          moreover have "(h' @ w' @ t') @ u \<noteq> []" "is_line_terminator (last ((h' @ w' @ t') @ u))"
            using un by simp_all
          ultimately show False
            using nb u(3-7) by metis
        qed
        ultimately have "?R (Some (last t')) (r @ ?x) = ?R (Some (last t')) r @ ?tail"
          using 1(1) \<open>length r < length q\<close> by simp
        moreover have "?R p (q @ ?x) = h' @ [SPACE] @ t' @ ?R (Some (last t')) (r @ ?x)"
          using app Some m True by (subst replace_heading) simp
        moreover have "?R p q = h' @ [SPACE] @ t' @ ?R (Some (last t')) r"
          using Some m True by (subst replace_heading) simp
        ultimately show ?thesis
          by simp
      qed
    qed
  qed
qed

text \<open>
  Claim C4, as amended. Take a heading line that stands at a line start: a run of one to
  six \<^verbatim>\<open>#\<close>, white space, and text up to the end of the line. Unless the text before it
  ends with a line that is only a marker run and white space (whose match then takes the
  heading line as its text), step 4 puts exactly one space between the marker run and the
  text, whatever the white space was, and rewrites the text before and after the line as
  it would alone.
\<close>

theorem heading_single_space:
  assumes "pre = [] \<or> is_line_terminator (last pre)"
    and "\<not> (\<exists>u m b. pre = u @ m @ b \<and> (u = [] \<or> is_line_terminator (last u)) \<and>
               m \<noteq> [] \<and> length m \<le> 6 \<and> (\<forall>c \<in> set m. c = HASH) \<and>
               b \<noteq> [] \<and> (\<forall>c \<in> set b. is_space c))"
    and "h \<noteq> []" and "length h \<le> 6" and "\<forall>c \<in> set h. c = HASH"
    and "w \<noteq> []" and "\<forall>c \<in> set w. is_space c"
    and "t \<noteq> []" and "\<not> is_space (hd t)" and "\<forall>c \<in> set t. \<not> is_line_terminator c"
    and "rest = [] \<or> is_line_terminator (hd rest)"
  shows "step4 (pre @ h @ w @ t @ rest) = step4 pre @ h @ js '' '' @ t @ step4 rest"
proof -
  have nb: "\<not> (\<exists>u m b. pre = u @ m @ b \<and>
      (if u = [] then bol None else is_line_terminator (last u)) \<and>
      m \<noteq> [] \<and> length m \<le> 6 \<and> (\<forall>c \<in> set m. c = HASH) \<and> b \<noteq> [] \<and> (\<forall>c \<in> set b. is_space c))"
  proof
    assume "\<exists>u m b. pre = u @ m @ b \<and>
      (if u = [] then bol None else is_line_terminator (last u)) \<and>
      m \<noteq> [] \<and> length m \<le> 6 \<and> (\<forall>c \<in> set m. c = HASH) \<and> b \<noteq> [] \<and> (\<forall>c \<in> set b. is_space c)"
    then obtain u m b where u: "pre = u @ m @ b"
      "if u = [] then bol None else is_line_terminator (last u)"
      "m \<noteq> []" "length m \<le> 6" "\<forall>c \<in> set m. c = HASH" "b \<noteq> []" "\<forall>c \<in> set b. is_space c"
      by blast
    from u(2) have "u = [] \<or> is_line_terminator (last u)"
      by (auto split: if_splits)
    with assms(2) u(1,3-7) show False
      by blast
  qed
  have "replace_from re_heading tp_heading None (pre @ h @ w @ t @ rest) =
      replace_from re_heading tp_heading None pre @ h @ [SPACE] @ t @
      replace_from re_heading tp_heading (Some (last t)) rest"
    using assms(1) nb by (intro replace_heading_at_line assms(3-11)) (auto simp: bol_def)
  moreover have "replace_from re_heading tp_heading (Some (last t)) rest =
      replace_from re_heading tp_heading None rest"
    using assms(11) by (rule replace_heading_rest)
  ultimately show ?thesis
    by (simp add: step4_def replace_def js_def)
qed

theorem heading_single_space_witness:
  "step4 (js ''intro\<newline>\<newline>##   Title here\<newline>text'') = js ''intro\<newline>\<newline>## Title here\<newline>text''"
proof -
  let ?pre = "js ''intro\<newline>\<newline>''"
  have 1: "?pre = [] \<or> is_line_terminator (last ?pre)"
    by (simp add: js_def)
  have 2: "\<not> (\<exists>u m b. ?pre = u @ m @ b \<and> (u = [] \<or> is_line_terminator (last u)) \<and>
               m \<noteq> [] \<and> length m \<le> 6 \<and> (\<forall>c \<in> set m. c = HASH) \<and>
               b \<noteq> [] \<and> (\<forall>c \<in> set b. is_space c))"
  proof
    assume "\<exists>u m b. ?pre = u @ m @ b \<and> (u = [] \<or> is_line_terminator (last u)) \<and>
               m \<noteq> [] \<and> length m \<le> 6 \<and> (\<forall>c \<in> set m. c = HASH) \<and>
               b \<noteq> [] \<and> (\<forall>c \<in> set b. is_space c)"
    then obtain u m b where "?pre = u @ m @ b" "m \<noteq> []" "\<forall>c \<in> set m. c = HASH"
      by blast
    then have "HASH \<in> set ?pre"
      by (cases m) auto
    then show False
      by (simp add: js_def)
  qed
  have 3: "js ''##'' \<noteq> []" "length (js ''##'') \<le> 6" "\<forall>c \<in> set (js ''##''). c = HASH"
    "js ''   '' \<noteq> []" "\<forall>c \<in> set (js ''   ''). is_space c"
    "js ''Title here'' \<noteq> []" "\<not> is_space (hd (js ''Title here''))"
    "\<forall>c \<in> set (js ''Title here''). \<not> is_line_terminator c"
    "js ''\<newline>text'' = [] \<or> is_line_terminator (hd (js ''\<newline>text''))"
    by (simp_all add: js_def is_space_def is_line_terminator_def)
  have 4: "step4 ?pre = ?pre" "step4 (js ''\<newline>text'') = js ''\<newline>text''"
    by code_simp+
  have 5: "?pre @ js ''##'' @ js ''   '' @ js ''Title here'' @ js ''\<newline>text'' =
      js ''intro\<newline>\<newline>##   Title here\<newline>text''"
    "?pre @ js ''##'' @ js '' '' @ js ''Title here'' @ js ''\<newline>text'' =
      js ''intro\<newline>\<newline>## Title here\<newline>text''"
    by (simp_all add: js_def)
  from heading_single_space [OF 1 2 3] 4 5 show ?thesis
    by simp
qed

text \<open>
  The claim as stated fails for a heading line after a bare bullet line, which step 3 joins
  to the bullet before step 4 runs, and for a heading line after a bare marker line, which
  the match of that line takes as its text: the two spaces stay.
\<close>

theorem heading_single_space_counterexample:
  "postProcessForMdx (js ''-\<newline>#  Title'') = js ''- #  Title'' \<and>
   postProcessForMdx (js ''#\<newline>##  Sub'') = js ''# ##  Sub'' \<and>
   step4 (js ''#\<newline>##  Sub'') = js ''# ##  Sub''"
  by code_simp


section \<open>Applying the post-processor twice\<close>

subsection \<open>Positions\<close>

lemma everywhere_here: "everywhere Q p s \<Longrightarrow> Q p s"
  by (cases s) auto

lemma everywhere_suffix: "everywhere Q p (u @ v) \<Longrightarrow> everywhere Q (lastp p u) v"
  by (induction u arbitrary: p) auto

lemma everywhere_mono:
  "(\<And>p v. Q p v \<Longrightarrow> Q' p v) \<Longrightarrow> everywhere Q p s \<Longrightarrow> everywhere Q' p s"
  by (induction s arbitrary: p) auto

lemma everywhere_append:
  "everywhere Q p (u @ v) \<longleftrightarrow>
     (\<forall>u1 u2. u = u1 @ u2 \<and> u2 \<noteq> [] \<longrightarrow> Q (lastp p u1) (u2 @ v)) \<and> everywhere Q (lastp p u) v"
proof (induction u arbitrary: p)
  case Nil
  then show ?case by simp
next
  case (Cons a u)
  have "(\<forall>u1 u2. a # u = u1 @ u2 \<and> u2 \<noteq> [] \<longrightarrow> Q (lastp p u1) (u2 @ v)) \<longleftrightarrow>
      Q p (a # u @ v) \<and> (\<forall>u1 u2. u = u1 @ u2 \<and> u2 \<noteq> [] \<longrightarrow> Q (lastp (Some a) u1) (u2 @ v))"
    (is "?l \<longleftrightarrow> ?r")
  proof
    assume l: ?l
    have "Q p (a # u @ v)"
      using l [rule_format, of "[]" "a # u"] by simp
    moreover have "Q (lastp (Some a) u1) (u2 @ v)" if "u = u1 @ u2" "u2 \<noteq> []" for u1 u2
      using l [rule_format, of "a # u1" u2] that by simp
    ultimately show ?r by blast
  next
    assume r: ?r
    show ?l
    proof (intro allI impI)
      fix u1 u2
      assume s: "a # u = u1 @ u2 \<and> u2 \<noteq> []"
      show "Q (lastp p u1) (u2 @ v)"
      proof (cases u1)
        case Nil
        with s r show ?thesis by auto
      next
        case (Cons b u1')
        with s r show ?thesis by simp
      qed
    qed
  qed
  with Cons.IH [of "Some a"] show ?case
    by simp
qed

subsection \<open>Step 1\<close>

lemma replace_blank:
  "replace_from re_blank tp_blank p s =
     (if 3 \<le> length (takeWhile (is_char LF) s)
      then [LF, LF] @ replace_from re_blank tp_blank (Some LF) (dropWhile (is_char LF) s)
      else (case s of [] \<Rightarrow> [] | a # r \<Rightarrow> a # replace_from re_blank tp_blank (Some a) r))"
proof (cases "3 \<le> length (takeWhile (is_char LF) s)")
  case True
  then have "length (dropWhile (is_char LF) s) < length s"
    by (intro length_dropWhile_less) auto
  with True show ?thesis
    by (subst replace_from.simps) (simp add: match_blank tp_blank_def)
next
  case False
  then show ?thesis
    by (subst replace_from.simps) (simp add: match_blank)
qed

lemma replace_blank_prev: "replace_from re_blank tp_blank p s = step1 s"
proof (induction s arbitrary: p rule: length_induct)
  case (1 s)
  have "length (dropWhile (is_char LF) s) < length s" if "3 \<le> length (takeWhile (is_char LF) s)"
    using that by (intro length_dropWhile_less) auto
  then have "replace_from re_blank tp_blank p s = replace_from re_blank tp_blank None s"
    by (subst (1 2) replace_blank) (auto simp: step1_def replace_def 1 split: list.splits)
  then show ?case
    by (simp add: step1_def replace_def)
qed

lemma step1_unfold:
  "step1 s =
     (if 3 \<le> length (takeWhile (is_char LF) s) then [LF, LF] @ step1 (dropWhile (is_char LF) s)
      else (case s of [] \<Rightarrow> [] | a # r \<Rightarrow> a # step1 r))"
  using replace_blank [of None s]
  by (auto simp: replace_blank_prev split: list.splits)

lemma step1_Nil [simp]: "step1 [] = []"
  by (subst step1_unfold) simp

lemma step1_lead: "length (takeWhile (is_char LF) (step1 s)) \<le> length (takeWhile (is_char LF) s)"
proof (induction s rule: length_induct)
  case (1 s)
  show ?case
  proof (cases "3 \<le> length (takeWhile (is_char LF) s)")
    case True
    let ?r = "dropWhile (is_char LF) s"
    have "takeWhile (is_char LF) ?r = []"
      by (metis dropWhile_eq_Nil_conv hd_dropWhile takeWhile.simps(1) takeWhile_eq_Nil_iff)
    moreover have "length ?r < length s"
      using True by (intro length_dropWhile_less) auto
    ultimately have "takeWhile (is_char LF) (step1 ?r) = []"
      using 1 by (metis le_zero_eq length_0_conv list.size(3))
    with True show ?thesis
      by (subst step1_unfold) (simp add: is_char_def)
  next
    case False
    show ?thesis
    proof (cases s)
      case Nil
      then show ?thesis by simp
    next
      case (Cons a r)
      with False 1 show ?thesis
        by (subst step1_unfold) simp
    qed
  qed
qed

lemma step1_calm: "everywhere calm1 p (step1 s)"
proof (induction s arbitrary: p rule: length_induct)
  case (1 s)
  show ?case
  proof (cases "3 \<le> length (takeWhile (is_char LF) s)")
    case True
    let ?r = "dropWhile (is_char LF) s"
    have "takeWhile (is_char LF) ?r = []"
      by (metis dropWhile_eq_Nil_conv hd_dropWhile takeWhile.simps(1) takeWhile_eq_Nil_iff)
    with step1_lead [of ?r] have lead: "takeWhile (is_char LF) (step1 ?r) = []"
      by simp
    have "length ?r < length s"
      using True by (intro length_dropWhile_less) auto
    with 1 have "everywhere calm1 (Some LF) (step1 ?r)"
      by simp
    with True lead show ?thesis
      by (subst step1_unfold) (simp add: calm1_def is_char_def)
  next
    case False
    show ?thesis
    proof (cases s)
      case Nil
      then show ?thesis by (simp add: calm1_def)
    next
      case (Cons a r)
      have "calm1 p (a # step1 r)"
        using False Cons step1_lead [of r] by (auto simp: not_le calm1_def)
      moreover have "everywhere calm1 (Some a) (step1 r)"
        using 1 Cons by simp
      ultimately show ?thesis
        using False Cons by (subst step1_unfold) simp
    qed
  qed
qed

lemma calm1_fixed: "everywhere calm1 p s \<Longrightarrow> step1 s = s"
proof (induction s arbitrary: p)
  case Nil
  show ?case by simp
next
  case (Cons a s)
  then have "\<not> 3 \<le> length (takeWhile (is_char LF) (a # s))" "step1 s = s"
    by (auto simp: calm1_def)
  then show ?case
    by (subst step1_unfold) simp
qed

lemma step1_idem: "step1 (step1 s) = step1 s"
  using step1_calm [of None s] by (rule calm1_fixed)

subsection \<open>Trimming\<close>

lemma trim_fixed:
  assumes "s = [] \<or> (\<not> is_space (hd s) \<and> \<not> is_space (last s))"
  shows "trim s = s"
proof (cases s)
  case Nil
  then show ?thesis by (simp add: trim_def)
next
  case (Cons a r)
  with assms have "dropWhile is_space s = s"
    by simp
  moreover have "dropWhile is_space (rev s) = rev s"
  proof -
    have "rev s \<noteq> []" "hd (rev s) = last s"
      using Cons by (simp_all add: hd_rev)
    with assms Cons show ?thesis
      by (cases "rev s") auto
  qed
  ultimately show ?thesis
    by (simp add: trim_def)
qed

lemma trim_ends: "trim s = [] \<or> (\<not> is_space (hd (trim s)) \<and> \<not> is_space (last (trim s)))"
proof (cases "trim s = []")
  case False
  let ?d = "dropWhile is_space s"
  let ?e = "dropWhile is_space (rev ?d)"
  from False have e: "?e \<noteq> []"
    by (simp add: trim_def)
  then have "\<not> is_space (hd ?e)"
    by (rule hd_dropWhile)
  then have l: "\<not> is_space (last (trim s))"
    using e by (simp add: trim_def last_rev)
  have "rev ?d = takeWhile is_space (rev ?d) @ ?e"
    by simp
  then have "?d = trim s @ rev (takeWhile is_space (rev ?d))"
    by (metis rev_append rev_rev_ident trim_def)
  with False have "hd ?d = hd (trim s)" "?d \<noteq> []"
    by (metis hd_append2, metis append_is_Nil_conv)
  moreover from this(2) have "\<not> is_space (hd ?d)"
    by (rule hd_dropWhile)
  ultimately show ?thesis
    using l by simp
qed simp

lemma trim_idem: "trim (trim s) = trim s"
  using trim_ends by (rule trim_fixed)

subsection \<open>Agreement of output and input\<close>

lemma agree_Nil [simp]: "agree m [] inp"
  by (simp add: agree_def)

lemma agree_marker [simp]: "agree m (m # out) inp"
  by (simp add: agree_def)

lemma agree_Cons: "agree m out inp \<Longrightarrow> agree m (a # out) (a # inp)"
  by (simp add: agree_def)

lemma agree_append: "agree m out inp \<Longrightarrow> agree m (u @ out) (u @ inp)"
  by (induction u) (simp_all add: agree_Cons)

lemma agree_prefix:
  assumes "agree m out inp" and "m \<notin> set u" and "prefix u out"
  shows "prefix u inp"
proof -
  from assms(3) obtain o' where "out = u @ o'"
    by (auto simp: prefix_def)
  with assms(2) have "takeWhile (\<lambda>c. c \<noteq> m) out = u @ takeWhile (\<lambda>c. c \<noteq> m) o'"
    by (auto intro!: takeWhile_append2)
  with assms(1) show ?thesis
    by (auto simp: agree_def dest: append_prefixD)
qed

lemma prefix_takeWhile: "prefix u s \<Longrightarrow> \<forall>c \<in> set u. P c \<Longrightarrow> prefix u (takeWhile P s)"
  by (auto simp: prefix_def takeWhile_append2)

lemma agree_run:
  assumes "agree m out inp" and "\<not> P m"
  shows "prefix (takeWhile P out) (takeWhile P inp)"
proof -
  have notin: "m \<notin> set (takeWhile P out)"
    using assms(2) by (auto dest: set_takeWhileD)
  have "prefix (takeWhile P out) inp"
    by (rule agree_prefix [OF assms(1) notin takeWhile_is_prefix])
  moreover have "\<forall>c \<in> set (takeWhile P out). P c"
    by (auto dest: set_takeWhileD)
  ultimately show ?thesis
    by (rule prefix_takeWhile)
qed

lemma list_match_Some:
  assumes "list_match s = Some (i, r)"
  shows "\<exists>b. s = i @ DASH # b @ LF # r \<and> (\<forall>c \<in> set i. is_space c) \<and> (\<forall>c \<in> set b. is_space c) \<and>
           LF \<notin> set (takeWhile is_space r)"
proof -
  have skip: "skip_blank t = Some r \<Longrightarrow>
      \<exists>b. t = b @ LF # r \<and> (\<forall>c \<in> set b. is_space c) \<and> LF \<notin> set (takeWhile is_space r)" for t
  proof (induction t)
    case Nil
    then show ?case by simp
  next
    case (Cons a t)
    show ?case
    proof (cases "skip_blank t")
      case None
      with Cons.prems have "a = LF" "r = t"
        by (auto split: if_splits)
      with None show ?thesis
        by (intro exI [of _ "[]"]) (simp add: skip_blank_None)
    next
      case (Some x)
      with Cons.prems have "is_space a" "skip_blank t = Some r"
        by (auto split: if_splits)
      with Cons.IH obtain b where "t = b @ LF # r" "\<forall>c \<in> set b. is_space c"
        "LF \<notin> set (takeWhile is_space r)"
        by blast
      with \<open>is_space a\<close> show ?thesis
        by (intro exI [of _ "a # b"]) simp
    qed
  qed
  from assms obtain t where t: "dropWhile is_space s = DASH # t" "skip_blank t = Some r"
    "i = takeWhile is_space s"
    by (auto simp: list_match_def split: list.splits if_splits)
  from skip [OF t(2)] obtain b where b: "t = b @ LF # r" "\<forall>c \<in> set b. is_space c"
    "LF \<notin> set (takeWhile is_space r)"
    by blast
  have "s = i @ DASH # t"
    using t(1,3) by (metis takeWhile_dropWhile_id)
  moreover have "\<forall>c \<in> set i. is_space c"
    unfolding t(3) by (auto dest: set_takeWhileD)
  ultimately show ?thesis
    using b by (intro exI [of _ b]) simp
qed

lemma step2_agree: "agree BACKTICK (step2 z) z"
proof (induction z rule: length_induct)
  case (1 z)
  show ?case
  proof (cases "fence_match z")
    case None
    show ?thesis
    proof (cases z)
      case Nil
      then show ?thesis by simp
    next
      case (Cons a z')
      with None 1 show ?thesis
        by (subst step2_unfold) (simp add: agree_Cons)
    qed
  next
    case (Some wr)
    then show ?thesis
      by (subst step2_unfold) (simp split: prod.splits)
  qed
qed

lemma R3_agree: "agree DASH (R3 p z) z"
proof (induction z arbitrary: p rule: length_induct)
  case (1 z)
  show ?case
  proof (cases "if bol p then list_match z else None")
    case None
    show ?thesis
    proof (cases z)
      case Nil
      with None show ?thesis
        by (subst replace_list) simp
    next
      case (Cons a z')
      with None 1 show ?thesis
        by (subst replace_list) (simp add: agree_Cons)
    qed
  next
    case (Some ir)
    obtain i r where ir: "ir = (i, r)" by (cases ir)
    with Some have "list_match z = Some (i, r)"
      by (simp split: if_splits)
    from list_match_Some [OF this] obtain b where "z = i @ DASH # b @ LF # r"
      by blast
    moreover have "agree DASH (i @ DASH # SPACE # R3 (Some LF) r) (i @ DASH # b @ LF # r)"
      by (rule agree_append) simp
    ultimately show ?thesis
      using Some ir by (subst replace_list) simp
  qed
qed

lemma R4_agree: "agree HASH (R4 p z) z"
proof (induction z arbitrary: p rule: length_induct)
  case (1 z)
  show ?case
  proof (cases "if bol p then heading_match z else None")
    case None
    show ?thesis
    proof (cases z)
      case Nil
      with None show ?thesis
        by (subst replace_heading) simp
    next
      case (Cons a z')
      with None 1 show ?thesis
        by (subst replace_heading) (simp add: agree_Cons)
    qed
  next
    case (Some m)
    obtain h t r where m: "m = (h, t, r)" by (cases m)
    with Some have "heading_match z = Some (h, t, r)"
      by (simp split: if_splits)
    from heading_match_Some [OF this] obtain h' where "h = HASH # h'"
      by (cases h) auto
    then show ?thesis
      using Some m by (subst replace_heading) simp
  qed
qed

text \<open>Every step keeps the first code unit of the text.\<close>

lemma step2_hd: "step2 [] = []" "\<exists>out. step2 (a # z) = a # out"
proof -
  show "step2 [] = []" by simp
  show "\<exists>out. step2 (a # z) = a # out"
  proof (cases "fence_match (a # z)")
    case None
    then show ?thesis by (subst step2_unfold) simp
  next
    case (Some wr)
    obtain w r where wr: "wr = (w, r)" by (cases wr)
    with Some have "a = BACKTICK"
      by (simp add: fence_match_Some)
    with Some wr show ?thesis
      by (subst step2_unfold) simp
  qed
qed

lemma R3_hd: "R3 p [] = []" "\<exists>out. R3 p (a # z) = a # out"
proof -
  show "R3 p [] = []"
    by (subst replace_list) (simp add: list_match_spaces)
  show "\<exists>out. R3 p (a # z) = a # out"
  proof (cases "if bol p then list_match (a # z) else None")
    case None
    then show ?thesis by (subst replace_list) simp
  next
    case (Some ir)
    obtain i r where ir: "ir = (i, r)" by (cases ir)
    with Some have "list_match (a # z) = Some (i, r)"
      by (simp split: if_splits)
    from list_match_Some [OF this] obtain b where "a # z = i @ DASH # b @ LF # r"
      by blast
    then have "\<exists>out. i @ [DASH, SPACE] @ R3 (Some LF) r = a # out"
      by (cases i) auto
    then show ?thesis
      using Some ir by (subst replace_list) simp
  qed
qed

lemma R4_hd: "R4 p [] = []" "\<exists>out. R4 p (a # z) = a # out"
proof -
  show "R4 p [] = []"
    by (subst replace_heading) (simp add: heading_match_def)
  show "\<exists>out. R4 p (a # z) = a # out"
  proof (cases "if bol p then heading_match (a # z) else None")
    case None
    then show ?thesis by (subst replace_heading) simp
  next
    case (Some m)
    obtain h t r where m: "m = (h, t, r)" by (cases m)
    with Some have "heading_match (a # z) = Some (h, t, r)"
      by (simp split: if_splits)
    from heading_match_Some [OF this] obtain w where "a # z = h @ w @ t @ r" "h \<noteq> []"
      by blast
    then have "\<exists>out. h @ [SPACE] @ t @ R4 (Some (last t)) r = a # out"
      by (cases h) auto
    then show ?thesis
      using Some m by (subst replace_heading) simp
  qed
qed

lemma step1_hd: "\<exists>out. step1 (a # z) = a # out"
  by (subst step1_unfold) (auto simp: is_char_def)

subsection \<open>Runs of line feeds survive no later step\<close>

lemma takeWhile_stop: "\<not> P a \<Longrightarrow> takeWhile P (u @ a # x) = takeWhile P u"
  by (induction u) auto

lemma calm1_prev: "everywhere calm1 p s = everywhere calm1 p' s"
  by (cases s) (simp_all add: calm1_def)

lemma calm1_skip: "LF \<notin> set u \<Longrightarrow> everywhere calm1 p (u @ v) = everywhere calm1 p' v"
proof (induction u arbitrary: p)
  case Nil
  show ?case
    by simp (rule calm1_prev)
next
  case (Cons a u)
  then have "calm1 p (a # u @ v)"
    by (simp add: calm1_def is_char_def)
  with Cons show ?case
    by simp
qed

lemma calm1_agree:
  assumes "agree m out inp" and "m \<noteq> LF" and "calm1 p inp"
  shows "calm1 p' out"
proof -
  have "\<not> is_char LF m"
    using assms(2) by (simp add: is_char_def)
  with assms(1) have "prefix (takeWhile (is_char LF) out) (takeWhile (is_char LF) inp)"
    by (rule agree_run)
  then have "length (takeWhile (is_char LF) out) \<le> length (takeWhile (is_char LF) inp)"
    by (rule prefix_length_le)
  with assms(3) show ?thesis
    by (simp add: calm1_def)
qed

lemma calm1_swap:
  assumes "a \<noteq> LF" and "everywhere calm1 p (i @ a # x)" and "everywhere calm1 q (a # y)"
  shows "everywhere calm1 p' (i @ a # y)"
  using assms(2)
proof (induction i arbitrary: p p')
  case Nil
  show ?case
    using assms(3) by (simp only: calm1_prev [of p' "a # y" q] append_Nil)
next
  case (Cons c i)
  have "\<not> is_char LF a"
    using assms(1) by (simp add: is_char_def)
  then have "takeWhile (is_char LF) ((c # i) @ a # y) = takeWhile (is_char LF) (c # i)"
    and "takeWhile (is_char LF) ((c # i) @ a # x) = takeWhile (is_char LF) (c # i)"
    by (rule takeWhile_stop)+
  then have "takeWhile (is_char LF) ((c # i) @ a # y) = takeWhile (is_char LF) ((c # i) @ a # x)"
    by simp
  moreover from Cons.prems have c: "calm1 p ((c # i) @ a # x)" "everywhere calm1 (Some c) (i @ a # x)"
    by simp_all
  ultimately have "calm1 p' ((c # i) @ a # y)"
    by (simp add: calm1_def)
  moreover have "everywhere calm1 (Some c) (i @ a # y)"
    using c(2) by (rule Cons.IH)
  ultimately show ?case
    by simp
qed

lemma word_not_LF: "is_word c \<Longrightarrow> c \<noteq> LF"
  by (auto simp: is_word_def)

lemma dot_not_LF: "is_dot c \<Longrightarrow> c \<noteq> LF"
  by (auto simp: is_dot_def is_line_terminator_def)

lemma calm1_any: "calm1 p v = calm1 p' v"
  by (simp add: calm1_def)

lemma calm1_Cons:
  "everywhere calm1 p (a # s) \<longleftrightarrow> calm1 None (a # s) \<and> everywhere calm1 None s"
  using calm1_prev [of "Some a" s None] calm1_any [of p "a # s" None] by simp

lemma calm1_copy:
  assumes "everywhere calm1 None (a # r)" and "agree m out r" and "m \<noteq> LF"
    and "everywhere calm1 None out"
  shows "everywhere calm1 None (a # out)"
proof -
  have "agree m (a # out) (a # r)"
    using assms(2) by (rule agree_Cons)
  moreover have "calm1 None (a # r)"
    using assms(1) by (simp only: calm1_Cons)
  ultimately have "calm1 None (a # out)"
    using assms(3) by (intro calm1_agree [of m "a # out" "a # r" None None])
  with assms(4) show ?thesis
    by (simp only: calm1_Cons)
qed

lemma step2_calm1_aux: "everywhere calm1 None x \<Longrightarrow> everywhere calm1 None (step2 x)"
proof (induction x rule: length_induct)
  case (1 x)
  show ?case
  proof (cases "fence_match x")
    case None
    show ?thesis
    proof (cases x)
      case Nil
      with "1.prems" show ?thesis by simp
    next
      case (Cons a r)
      have "everywhere calm1 None r"
        using "1.prems" unfolding Cons by (simp only: calm1_Cons)
      with "1.IH" Cons have out: "everywhere calm1 None (step2 r)"
        by simp
      have "everywhere calm1 None (a # step2 r)"
      proof (rule calm1_copy [OF _ step2_agree])
        show "everywhere calm1 None (a # r)"
          using "1.prems" Cons by simp
        show "BACKTICK \<noteq> LF"
          by simp
        show "everywhere calm1 None (step2 r)"
          by (rule out)
      qed
      then show ?thesis
        using None Cons by (subst step2_unfold) simp
    qed
  next
    case (Some wr)
    obtain w r where wr: "wr = (w, r)" by (cases wr)
    define u where "u = [BACKTICK, BACKTICK, BACKTICK] @ w"
    from Some wr have x: "x = u @ LF # LF # r" and w: "\<forall>c \<in> set w. is_word c"
      by (simp_all add: fence_match_Some u_def)
    have "everywhere calm1 (lastp None u) (LF # LF # r)"
      using "1.prems" unfolding x by (rule everywhere_suffix)
    then have "calm1 None (LF # LF # r)" and r: "everywhere calm1 None r"
      by (simp_all only: calm1_Cons)
    then have lead: "takeWhile (is_char LF) r = []"
      by (auto simp: calm1_def is_char_def split: if_splits)
    have "prefix (takeWhile (is_char LF) (step2 r)) (takeWhile (is_char LF) r)"
      by (rule agree_run [OF step2_agree]) (simp add: is_char_def)
    with lead have "takeWhile (is_char LF) (step2 r) = []"
      by simp
    then have "calm1 None (LF # step2 r)"
      by (simp add: calm1_def)
    moreover have "everywhere calm1 None (step2 r)"
      using "1.IH" r x by simp
    ultimately have "everywhere calm1 None (LF # step2 r)"
      by (simp only: calm1_Cons)
    moreover have "LF \<notin> set u"
      using w by (auto simp: u_def dest: word_not_LF)
    ultimately have "everywhere calm1 None (u @ LF # step2 r)"
      by (simp add: calm1_skip [of u None _ None])
    then show ?thesis
      using Some wr by (subst step2_unfold) (simp add: u_def)
  qed
qed

lemma R3_calm1_aux: "everywhere calm1 None x \<Longrightarrow> everywhere calm1 None (R3 q x)"
proof (induction x arbitrary: q rule: length_induct)
  case (1 x)
  show ?case
  proof (cases "if bol q then list_match x else None")
    case None
    show ?thesis
    proof (cases x)
      case Nil
      with None "1.prems" show ?thesis
        by (subst replace_list) simp
    next
      case (Cons a r)
      have "everywhere calm1 None r"
        using "1.prems" unfolding Cons by (simp only: calm1_Cons)
      with "1.IH" Cons have out: "everywhere calm1 None (R3 (Some a) r)"
        by simp
      have "everywhere calm1 None (a # R3 (Some a) r)"
      proof (rule calm1_copy [OF _ R3_agree])
        show "everywhere calm1 None (a # r)"
          using "1.prems" Cons by simp
        show "DASH \<noteq> LF"
          by simp
        show "everywhere calm1 None (R3 (Some a) r)"
          by (rule out)
      qed
      then show ?thesis
        using None Cons by (subst replace_list) simp
    qed
  next
    case (Some ir)
    obtain i r where ir: "ir = (i, r)" by (cases ir)
    with Some have "list_match x = Some (i, r)"
      by (simp split: if_splits)
    from list_match_Some [OF this] obtain b where x: "x = i @ DASH # b @ LF # r"
      by blast
    then have x': "x = (i @ DASH # b @ [LF]) @ r"
      by simp
    have "everywhere calm1 (lastp None (i @ DASH # b @ [LF])) r"
      using "1.prems" unfolding x' by (rule everywhere_suffix)
    then have "everywhere calm1 None r"
      by (rule iffD1 [OF calm1_prev])
    then have "everywhere calm1 None (R3 (Some LF) r)"
      using "1.IH" x by simp
    then have out: "everywhere calm1 None (DASH # SPACE # R3 (Some LF) r)"
      using calm1_skip [of "[DASH, SPACE]" None "R3 (Some LF) r" None] by simp
    have inp: "everywhere calm1 None (i @ DASH # b @ LF # r)"
      using "1.prems" x by simp
    have "everywhere calm1 None (i @ DASH # SPACE # R3 (Some LF) r)"
      by (rule calm1_swap [OF _ inp out]) simp
    then show ?thesis
      using Some ir by (subst replace_list) simp
  qed
qed

lemma R4_calm1_aux: "everywhere calm1 None x \<Longrightarrow> everywhere calm1 None (R4 q x)"
proof (induction x arbitrary: q rule: length_induct)
  case (1 x)
  show ?case
  proof (cases "if bol q then heading_match x else None")
    case None
    show ?thesis
    proof (cases x)
      case Nil
      with None "1.prems" show ?thesis
        by (subst replace_heading) simp
    next
      case (Cons a r)
      have "everywhere calm1 None r"
        using "1.prems" unfolding Cons by (simp only: calm1_Cons)
      with "1.IH" Cons have out: "everywhere calm1 None (R4 (Some a) r)"
        by simp
      have "everywhere calm1 None (a # R4 (Some a) r)"
      proof (rule calm1_copy [OF _ R4_agree])
        show "everywhere calm1 None (a # r)"
          using "1.prems" Cons by simp
        show "HASH \<noteq> LF"
          by simp
        show "everywhere calm1 None (R4 (Some a) r)"
          by (rule out)
      qed
      then show ?thesis
        using None Cons by (subst replace_heading) simp
    qed
  next
    case (Some m)
    obtain h t r where m: "m = (h, t, r)" by (cases m)
    with Some have hm: "heading_match x = Some (h, t, r)"
      by (simp split: if_splits)
    from heading_match_Some [OF this] obtain w where x: "x = h @ w @ t @ r"
      and h: "\<forall>c \<in> set h. c = HASH" and t: "\<forall>c \<in> set t. is_dot c"
      by blast
    have shorter: "length r < length x"
      using hm by (rule heading_match_shorter)
    from x have x': "x = (h @ w @ t) @ r"
      by simp
    have "everywhere calm1 (lastp None (h @ w @ t)) r"
      using "1.prems" unfolding x' by (rule everywhere_suffix)
    then have "everywhere calm1 None r"
      by (rule iffD1 [OF calm1_prev])
    then have "everywhere calm1 None (R4 (Some (last t)) r)"
      using "1.IH" shorter by simp
    moreover have "LF \<notin> set (h @ SPACE # t)"
      using h t by (auto dest: dot_not_LF)
    ultimately have "everywhere calm1 None ((h @ SPACE # t) @ R4 (Some (last t)) r)"
      by (simp only: calm1_skip [of "h @ SPACE # t" None _ None] not_False_eq_True)
    then show ?thesis
      using Some m by (subst replace_heading) simp
  qed
qed

subsection \<open>Texts that a step leaves alone\<close>

lemma calm2_fixed: "everywhere calm2 p s \<Longrightarrow> step2 s = s"
proof (induction s arbitrary: p)
  case Nil
  show ?case by simp
next
  case (Cons a s)
  then have "fence_match (a # s) = None" "step2 s = s"
    by (auto simp: calm2_def)
  then show ?case
    by (subst step2_unfold) simp
qed

lemma calm3_fixed: "everywhere calm3 p s \<Longrightarrow> R3 p s = s"
proof (induction s arbitrary: p)
  case Nil
  show ?case by (rule R3_hd)
next
  case (Cons a s)
  then have "(if bol p then list_match (a # s) else None) = None" "R3 (Some a) s = s"
    by (auto simp: calm3_def)
  then show ?case
    by (subst replace_list) simp
qed

lemma calm4_fixed: "everywhere calm4 p s \<Longrightarrow> R4 p s = s"
proof (induction s arbitrary: p rule: length_induct)
  case (1 s)
  show ?case
  proof (cases "if bol p then heading_match s else None")
    case None
    show ?thesis
    proof (cases s)
      case Nil
      then show ?thesis by (simp add: R4_hd)
    next
      case (Cons a r)
      with 1 have "R4 (Some a) r = r"
        by simp
      with None Cons show ?thesis
        by (subst replace_heading) simp
    qed
  next
    case (Some m)
    obtain h t r where m: "m = (h, t, r)" by (cases m)
    with Some have b: "bol p" and hm: "heading_match s = Some (h, t, r)"
      by (simp_all split: if_splits)
    from heading_match_Some [OF hm] have t: "t \<noteq> []"
      by blast
    have "calm4 p s"
      using "1.prems" by (rule everywhere_here)
    with b hm have s: "s = (h @ [SPACE] @ t) @ r"
      by (simp add: calm4_def)
    have "everywhere calm4 (lastp p (h @ [SPACE] @ t)) r"
      using "1.prems" by (subst (asm) s) (rule everywhere_suffix)
    with t have "everywhere calm4 (Some (last t)) r"
      by (simp add: lastp_def)
    moreover have "length r < length s"
      using hm by (rule heading_match_shorter)
    ultimately have "R4 (Some (last t)) r = r"
      using 1 by simp
    then show ?thesis
      using Some m s by (subst replace_heading) simp
  qed
qed

subsection \<open>No later step makes a fence with a blank line\<close>

lemma calm2_prev: "everywhere calm2 p s = everywhere calm2 p' s"
  by (cases s) (simp_all add: calm2_def)

lemma calm2_Cons:
  "everywhere calm2 p (a # s) \<longleftrightarrow> fence_match (a # s) = None \<and> everywhere calm2 None s"
  using calm2_prev [of "Some a" s None] by (simp add: calm2_def)

lemma calm2_Nil [simp]: "calm2 p []"
  by (simp add: calm2_def)

lemma fence_match_hd: "a \<noteq> BACKTICK \<Longrightarrow> fence_match (a # s) = None"
  by (cases "a # s" rule: fence_match.cases) auto

lemma fence_match_hd2: "b \<noteq> BACKTICK \<Longrightarrow> fence_match (a # b # s) = None"
  by (cases s) auto

lemma calm2_skip: "BACKTICK \<notin> set u \<Longrightarrow> everywhere calm2 p (u @ v) = everywhere calm2 p' v"
proof (induction u arbitrary: p)
  case Nil
  show ?case
    by simp (rule calm2_prev)
next
  case (Cons a u)
  then have "fence_match (a # u @ v) = None"
    by (intro fence_match_hd) simp
  with Cons show ?case
    by (simp add: calm2_def)
qed

lemma word_not_BACKTICK: "is_word c \<Longrightarrow> c \<noteq> BACKTICK"
  by (auto simp: is_word_def)

lemma fence_agree:
  assumes "agree m out inp" and "m \<noteq> BACKTICK" and "m \<noteq> LF" and "\<not> is_word m"
    and "fence_match out = Some (w, r)"
  shows "\<exists>r'. fence_match inp = Some (w, r')"
proof -
  define u where "u = [BACKTICK, BACKTICK, BACKTICK] @ w @ [LF, LF]"
  from assms(5) have out: "out = u @ r" and w: "\<forall>c \<in> set w. is_word c"
    by (simp_all add: fence_match_Some u_def)
  have "m \<notin> set u"
    using assms(2,3,4) w by (auto simp: u_def)
  moreover have "prefix u out"
    by (simp add: out)
  ultimately have "prefix u inp"
    by (rule agree_prefix [OF assms(1)])
  then obtain r' where "inp = u @ r'"
    by (auto simp: prefix_def)
  with w have "fence_match inp = Some (w, r')"
    by (simp add: fence_match_Some u_def)
  then show ?thesis ..
qed

lemma calm2_copy:
  assumes "everywhere calm2 None (a # r)" and "agree m out r"
    and "m \<noteq> BACKTICK" and "m \<noteq> LF" and "\<not> is_word m"
    and "everywhere calm2 None out"
  shows "everywhere calm2 None (a # out)"
proof -
  have "agree m (a # out) (a # r)"
    using assms(2) by (rule agree_Cons)
  moreover have "fence_match (a # r) = None"
    using assms(1) by (simp only: calm2_Cons)
  ultimately have "fence_match (a # out) = None"
    using fence_agree [of m "a # out" "a # r", OF _ assms(3,4,5)]
    by (cases "fence_match (a # out)") auto
  with assms(6) show ?thesis
    by (simp only: calm2_Cons)
qed

lemma calm2_tail:
  assumes "agree m out r" and "m \<noteq> BACKTICK" and "m \<noteq> LF" and "\<not> is_word m"
    and "everywhere calm2 None out"
  shows "everywhere calm2 None (t @ r) \<Longrightarrow> everywhere calm2 None (t @ out)"
proof (induction t)
  case Nil
  show ?case
    using assms(5) by simp
next
  case (Cons a t)
  from Cons.prems have inp: "everywhere calm2 None (a # t @ r)" and "everywhere calm2 None (t @ r)"
    by (simp_all only: append_Cons calm2_Cons)
  from this(2) have out: "everywhere calm2 None (t @ out)"
    by (rule Cons.IH)
  have "agree m (t @ out) (t @ r)"
    using assms(1) by (rule agree_append)
  from inp this assms(2,3,4) out have "everywhere calm2 None (a # t @ out)"
    by (rule calm2_copy)
  then show ?case
    by simp
qed

text \<open>The code units that a fence starts with come from a fence of the input.\<close>

lemma step2_cases:
  obtains (copy) b z' where "z = b # z'" and "step2 z = b # step2 z'"
  | (fence) y where "step2 z = BACKTICK # BACKTICK # BACKTICK # y"
  | (empty) "z = []"
proof (cases "fence_match z")
  case None
  show ?thesis
  proof (cases z)
    case Nil
    then show ?thesis by (rule empty)
  next
    case (Cons b z')
    moreover from None Cons have "step2 z = b # step2 z'"
      by (subst step2_unfold) simp
    ultimately show ?thesis by (rule copy)
  qed
next
  case (Some wr)
  then have "step2 z = BACKTICK # BACKTICK # BACKTICK # fst wr @ LF # step2 (snd wr)"
    by (subst step2_unfold) (simp split: prod.splits)
  then show ?thesis by (rule fence)
qed

lemma fence_step2:
  assumes "fence_match (a # step2 z) = Some (w, r)"
  shows "\<exists>r'. fence_match (a # z) = Some (w, r')"
proof -
  define tail where "tail = w @ LF # LF # r"
  from assms have eq: "a # step2 z = BACKTICK # BACKTICK # BACKTICK # tail"
    and w: "\<forall>c \<in> set w. is_word c"
    by (simp_all add: fence_match_Some tail_def)
  have tail: "tail \<noteq> BACKTICK # y" for y
    using w by (cases w) (auto simp: tail_def dest: word_not_BACKTICK)
  from eq have a: "a = BACKTICK" and z: "step2 z = BACKTICK # BACKTICK # tail"
    by simp_all
  from z tail obtain z1 where z1: "z = BACKTICK # z1" "step2 z1 = BACKTICK # tail"
    by (cases z rule: step2_cases) auto
  from z1(2) tail obtain z2 where z2: "z1 = BACKTICK # z2" "step2 z2 = tail"
    by (cases z1 rule: step2_cases) auto
  have "BACKTICK \<notin> set (w @ [LF, LF])"
    using w by (auto dest: word_not_BACKTICK)
  moreover have "prefix (w @ [LF, LF]) (step2 z2)"
    by (simp add: z2(2) tail_def)
  ultimately have "prefix (w @ [LF, LF]) z2"
    by (rule agree_prefix [OF step2_agree])
  then obtain r' where "z2 = w @ LF # LF # r'"
    by (auto simp: prefix_def)
  with a z1(1) z2(1) w have "fence_match (a # z) = Some (w, r')"
    by (simp add: fence_match_Some)
  then show ?thesis ..
qed

lemma calm2_fence_out:
  assumes w: "\<forall>c \<in> set w. is_word c" and lead: "\<And>y. out \<noteq> LF # y"
    and out: "everywhere calm2 None out"
  shows "everywhere calm2 None (BACKTICK # BACKTICK # BACKTICK # w @ LF # out)"
proof -
  have "BACKTICK \<notin> set (w @ [LF])"
    using w by (auto dest: word_not_BACKTICK)
  then have "everywhere calm2 None ((w @ [LF]) @ out) = everywhere calm2 None out"
    by (rule calm2_skip)
  with out have rest: "everywhere calm2 None (w @ LF # out)"
    by simp
  have two: "two_lf (LF # out) = None"
    using lead by (cases out) auto
  have "fence_match (BACKTICK # BACKTICK # BACKTICK # w @ LF # out) = None"
    using w two by (simp add: takeWhile_append2 dropWhile_append2)
  moreover have "fence_match (BACKTICK # BACKTICK # w @ LF # out) = None"
    using w by (cases w) (auto dest: word_not_BACKTICK)
  moreover have "fence_match (BACKTICK # w @ LF # out) = None"
    using w by (cases w) (auto dest: word_not_BACKTICK intro: fence_match_hd2)
  ultimately show ?thesis
    using rest by (simp only: calm2_Cons simp_thms)
qed

lemma step2_calm2_aux: "everywhere calm1 None x \<Longrightarrow> everywhere calm2 None (step2 x)"
proof (induction x rule: length_induct)
  case (1 x)
  show ?case
  proof (cases "fence_match x")
    case None
    show ?thesis
    proof (cases x)
      case Nil
      then show ?thesis by simp
    next
      case (Cons a r)
      have "everywhere calm1 None r"
        using "1.prems" unfolding Cons by (simp only: calm1_Cons)
      with "1.IH" Cons have out: "everywhere calm2 None (step2 r)"
        by simp
      have "fence_match (a # step2 r) = None"
        using fence_step2 [of a r] None Cons by (cases "fence_match (a # step2 r)") auto
      with out have "everywhere calm2 None (a # step2 r)"
        by (simp only: calm2_Cons simp_thms)
      then show ?thesis
        using None Cons by (subst step2_unfold) simp
    qed
  next
    case (Some wr)
    obtain w r where wr: "wr = (w, r)" by (cases wr)
    define u where "u = [BACKTICK, BACKTICK, BACKTICK] @ w"
    from Some wr have x: "x = u @ LF # LF # r" and w: "\<forall>c \<in> set w. is_word c"
      by (simp_all add: fence_match_Some u_def)
    have "everywhere calm1 (lastp None u) (LF # LF # r)"
      using "1.prems" unfolding x by (rule everywhere_suffix)
    then have "calm1 None (LF # LF # r)" and r: "everywhere calm1 None r"
      by (simp_all only: calm1_Cons)
    then have "takeWhile (is_char LF) r = []"
      by (auto simp: calm1_def is_char_def split: if_splits)
    moreover have "prefix (takeWhile (is_char LF) (step2 r)) (takeWhile (is_char LF) r)"
      by (rule agree_run [OF step2_agree]) (simp add: is_char_def)
    ultimately have "takeWhile (is_char LF) (step2 r) = []"
      by simp
    then have "step2 r \<noteq> LF # y" for y
      by (auto simp: is_char_def)
    moreover have "everywhere calm2 None (step2 r)"
      using "1.IH" r x by simp
    ultimately have "everywhere calm2 None (BACKTICK # BACKTICK # BACKTICK # w @ LF # step2 r)"
      by (intro calm2_fence_out w)
    then show ?thesis
      using Some wr by (subst step2_unfold) simp
  qed
qed

lemma space_not_BACKTICK: "is_space c \<Longrightarrow> c \<noteq> BACKTICK"
  by (auto simp: is_space_def)

lemma R3_calm2_aux: "everywhere calm2 None x \<Longrightarrow> everywhere calm2 None (R3 q x)"
proof (induction x arbitrary: q rule: length_induct)
  case (1 x)
  show ?case
  proof (cases "if bol q then list_match x else None")
    case None
    show ?thesis
    proof (cases x)
      case Nil
      with None show ?thesis
        by (subst replace_list) simp
    next
      case (Cons a r)
      have "everywhere calm2 None r"
        using "1.prems" unfolding Cons by (simp only: calm2_Cons)
      with "1.IH" Cons have out: "everywhere calm2 None (R3 (Some a) r)"
        by simp
      have "everywhere calm2 None (a # R3 (Some a) r)"
      proof (rule calm2_copy [OF _ R3_agree])
        show "everywhere calm2 None (a # r)"
          using "1.prems" Cons by simp
        show "everywhere calm2 None (R3 (Some a) r)"
          by (rule out)
      qed (simp_all add: is_word_def)
      then show ?thesis
        using None Cons by (subst replace_list) simp
    qed
  next
    case (Some ir)
    obtain i r where ir: "ir = (i, r)" by (cases ir)
    with Some have lm: "list_match x = Some (i, r)"
      by (simp split: if_splits)
    from list_match_Some [OF this] obtain b where x: "x = i @ DASH # b @ LF # r"
      and i: "\<forall>c \<in> set i. is_space c"
      by blast
    then have x': "x = (i @ DASH # b @ [LF]) @ r"
      by simp
    have "everywhere calm2 (lastp None (i @ DASH # b @ [LF])) r"
      using "1.prems" unfolding x' by (rule everywhere_suffix)
    then have "everywhere calm2 None r"
      by (rule iffD1 [OF calm2_prev])
    moreover have "length r < length x"
      using lm by (rule list_match_shorter)
    ultimately have "everywhere calm2 None (R3 (Some LF) r)"
      using "1.IH" by simp
    moreover have "BACKTICK \<notin> set (i @ [DASH, SPACE])"
      using i by (auto dest: space_not_BACKTICK)
    ultimately have "everywhere calm2 None ((i @ [DASH, SPACE]) @ R3 (Some LF) r)"
      by (simp only: calm2_skip [of "i @ [DASH, SPACE]" None _ None] not_False_eq_True)
    then show ?thesis
      using Some ir by (subst replace_list) simp
  qed
qed

lemma R4_calm2_aux: "everywhere calm2 None x \<Longrightarrow> everywhere calm2 None (R4 q x)"
proof (induction x arbitrary: q rule: length_induct)
  case (1 x)
  show ?case
  proof (cases "if bol q then heading_match x else None")
    case None
    show ?thesis
    proof (cases x)
      case Nil
      with None show ?thesis
        by (subst replace_heading) simp
    next
      case (Cons a r)
      have "everywhere calm2 None r"
        using "1.prems" unfolding Cons by (simp only: calm2_Cons)
      with "1.IH" Cons have out: "everywhere calm2 None (R4 (Some a) r)"
        by simp
      have "everywhere calm2 None (a # R4 (Some a) r)"
      proof (rule calm2_copy [OF _ R4_agree])
        show "everywhere calm2 None (a # r)"
          using "1.prems" Cons by simp
        show "everywhere calm2 None (R4 (Some a) r)"
          by (rule out)
      qed (simp_all add: is_word_def)
      then show ?thesis
        using None Cons by (subst replace_heading) simp
    qed
  next
    case (Some m)
    obtain h t r where m: "m = (h, t, r)" by (cases m)
    with Some have hm: "heading_match x = Some (h, t, r)"
      by (simp split: if_splits)
    from heading_match_Some [OF this] obtain w where x: "x = h @ w @ t @ r"
      and h: "\<forall>c \<in> set h. c = HASH"
      by blast
    from x have x': "x = (h @ w) @ t @ r" and x'': "x = (h @ w @ t) @ r"
      by simp_all
    have shorter: "length r < length x"
      using hm by (rule heading_match_shorter)
    have "everywhere calm2 (lastp None (h @ w)) (t @ r)"
      using "1.prems" unfolding x' by (rule everywhere_suffix)
    then have inp: "everywhere calm2 None (t @ r)"
      by (rule iffD1 [OF calm2_prev])
    have "everywhere calm2 (lastp None (h @ w @ t)) r"
      using "1.prems" unfolding x'' by (rule everywhere_suffix)
    then have "everywhere calm2 None r"
      by (rule iffD1 [OF calm2_prev])
    then have out: "everywhere calm2 None (R4 (Some (last t)) r)"
      using "1.IH" shorter by simp
    have "everywhere calm2 None (t @ R4 (Some (last t)) r)"
      by (rule calm2_tail [OF R4_agree _ _ _ out inp]) (simp_all add: is_word_def)
    moreover have "BACKTICK \<notin> set (h @ [SPACE])"
      using h by auto
    ultimately have "everywhere calm2 None ((h @ [SPACE]) @ t @ R4 (Some (last t)) r)"
      by (simp only: calm2_skip [of "h @ [SPACE]" None _ None] not_False_eq_True)
    then show ?thesis
      using Some m by (subst replace_heading) simp
  qed
qed

subsection \<open>No bullet line without content is left or made\<close>

lemma calm3_Nil [simp]: "calm3 p []"
  by (simp add: calm3_def list_match_def)

lemma calm3_weaken:
  "everywhere calm3 p s \<Longrightarrow> (bol p' \<Longrightarrow> bol p) \<Longrightarrow> everywhere calm3 p' s"
  by (cases s) (auto simp: calm3_def)

lemma list_match_Cons:
  "list_match (a # s) = None \<longleftrightarrow>
     (if is_space a then list_match s = None else a = DASH \<longrightarrow> skip_blank s = None)"
  by (simp add: list_match_def del: dropWhile_eq_Nil_conv split: list.splits)

lemma calm3_not_bol [simp]: "\<not> bol p \<Longrightarrow> calm3 p v"
  by (simp add: calm3_def)

lemma calm3_bol: "list_match v = None \<Longrightarrow> calm3 p v"
  by (simp add: calm3_def)

lemma not_bol [simp]: "\<not> bol (Some SPACE)" "\<not> bol (Some DASH)" "\<not> bol (Some HASH)"
  by (simp_all add: bol_def is_line_terminator_def)

lemma list_match_prefix:
  assumes "\<forall>c \<in> set i. is_space c" and "\<forall>c \<in> set b. is_space c"
  shows "list_match (i @ DASH # b @ LF # y) \<noteq> None"
  using assms(1)
proof (induction i)
  case Nil
  have "takeWhile is_space (b @ LF # y) = b @ takeWhile is_space (LF # y)"
    using assms(2) by (simp add: takeWhile_append2)
  then have "skip_blank (b @ LF # y) \<noteq> None"
    by (simp add: skip_blank_None)
  then show ?case
    by (simp add: list_match_Cons)
next
  case (Cons a i)
  then show ?case
    by (simp add: list_match_Cons)
qed

lemma list_agree:
  assumes "agree m out inp" and "\<not> is_space m" and "m \<noteq> DASH" and "list_match inp = None"
  shows "list_match out = None"
proof (rule ccontr)
  assume "list_match out \<noteq> None"
  then obtain i r where "list_match out = Some (i, r)"
    by auto
  from list_match_Some [OF this] obtain b where out: "out = i @ DASH # b @ LF # r"
    and i: "\<forall>c \<in> set i. is_space c" and b: "\<forall>c \<in> set b. is_space c"
    by blast
  define u where "u = i @ DASH # b @ [LF]"
  have "m \<notin> set u"
    using assms(2,3) i b by (auto simp: u_def)
  moreover have "prefix u out"
    by (simp add: out u_def)
  ultimately have "prefix u inp"
    by (rule agree_prefix [OF assms(1)])
  then obtain y where "inp = i @ DASH # b @ LF # y"
    by (auto simp: prefix_def u_def)
  with i b have "list_match inp \<noteq> None"
    by (simp only: list_match_prefix not_False_eq_True)
  with assms(4) show False by simp
qed

lemma calm3_agree:
  assumes "agree m out inp" and "\<not> is_space m" and "m \<noteq> DASH"
    and "calm3 p inp" and "bol p' \<Longrightarrow> bol p"
  shows "calm3 p' out"
  using list_agree [OF assms(1,2,3)] assms(4,5) by (auto simp: calm3_def)

lemma calm3_tail:
  assumes "agree m out r" and "\<not> is_space m" and "m \<noteq> DASH"
  shows "everywhere calm3 (lastp p' t) out \<Longrightarrow> everywhere calm3 p (t @ r) \<Longrightarrow>
    (bol p' \<Longrightarrow> bol p) \<Longrightarrow> everywhere calm3 p' (t @ out)"
proof (induction t arbitrary: p p')
  case Nil
  then show ?case by simp
next
  case (Cons a t)
  from Cons.prems(2) have here: "calm3 p (a # t @ r)" and rest: "everywhere calm3 (Some a) (t @ r)"
    by simp_all
  have "agree m (a # t @ out) (a # t @ r)"
    using agree_append [OF assms(1), of "a # t"] by simp
  from this assms(2,3) here Cons.prems(3) have "calm3 p' (a # t @ out)"
    by (rule calm3_agree)
  moreover have "everywhere calm3 (Some a) (t @ out)"
    using Cons.prems(1) rest by (intro Cons.IH [of "Some a" "Some a"]) simp_all
  ultimately show ?case
    by simp
qed

lemma list_match_hash [simp]: "list_match (HASH # s) = None"
  by (simp add: list_match_def)

lemma calm3_hash:
  assumes "everywhere calm3 (Some SPACE) v"
  shows "\<forall>c \<in> set h. c = HASH \<Longrightarrow> everywhere calm3 p (HASH # h @ SPACE # v)"
proof (induction h arbitrary: p)
  case Nil
  have "calm3 p (HASH # SPACE # v)"
    by (rule calm3_bol) simp
  with assms show ?case
    by simp
next
  case (Cons c h)
  then have "everywhere calm3 (Some HASH) (HASH # h @ SPACE # v)"
    by simp
  moreover have "calm3 p (HASH # (c # h) @ SPACE # v)"
    by (rule calm3_bol) simp
  ultimately show ?case
    using Cons.prems by simp
qed

lemma R4_calm3: "everywhere calm3 p x \<Longrightarrow> everywhere calm3 p (R4 p x)"
proof (induction x arbitrary: p rule: length_induct)
  case (1 x)
  show ?case
  proof (cases "if bol p then heading_match x else None")
    case None
    show ?thesis
    proof (cases x)
      case Nil
      with None show ?thesis
        by (subst replace_heading) simp
    next
      case (Cons a r)
      from "1.prems" Cons have here: "calm3 p (a # r)" and rest: "everywhere calm3 (Some a) r"
        by simp_all
      have "agree HASH (a # R4 (Some a) r) (a # r)"
        by (intro agree_Cons R4_agree)
      then have "calm3 p (a # R4 (Some a) r)"
        by (rule calm3_agree [OF _ _ _ here]) simp_all
      moreover have "everywhere calm3 (Some a) (R4 (Some a) r)"
        using "1.IH" rest Cons by simp
      ultimately show ?thesis
        using None Cons by (subst replace_heading) simp
    qed
  next
    case (Some m)
    obtain h t r where m: "m = (h, t, r)" by (cases m)
    with Some have hm: "heading_match x = Some (h, t, r)"
      by (simp split: if_splits)
    from heading_match_Some [OF this] obtain w where x: "x = h @ w @ t @ r"
      and h: "\<forall>c \<in> set h. c = HASH" "h \<noteq> []" and t: "t \<noteq> []"
      by blast
    from x have x': "x = (h @ w) @ t @ r" and x'': "x = (h @ w @ t) @ r"
      by simp_all
    have shorter: "length r < length x"
      using hm by (rule heading_match_shorter)
    have inp: "everywhere calm3 (lastp p (h @ w)) (t @ r)"
      using "1.prems" unfolding x' by (rule everywhere_suffix)
    have "everywhere calm3 (lastp p (h @ w @ t)) r"
      using "1.prems" unfolding x'' by (rule everywhere_suffix)
    with t have "everywhere calm3 (Some (last t)) r"
      by (simp add: lastp_def)
    then have "everywhere calm3 (Some (last t)) (R4 (Some (last t)) r)"
      using "1.IH" shorter by simp
    with t have "everywhere calm3 (lastp (Some SPACE) t) (R4 (Some (last t)) r)"
      by (simp add: lastp_def)
    from this inp have "everywhere calm3 (Some SPACE) (t @ R4 (Some (last t)) r)"
      by (rule calm3_tail [OF R4_agree, rotated 2]) simp_all
    moreover obtain h' where "h = HASH # h'" "\<forall>c \<in> set h'. c = HASH"
      using h by (cases h) auto
    ultimately have "everywhere calm3 p (h @ SPACE # t @ R4 (Some (last t)) r)"
      using calm3_hash [of "t @ R4 (Some (last t)) r" h' p] by simp
    then show ?thesis
      using Some m by (subst replace_heading) simp
  qed
qed

text \<open>A bullet line found in the output of step 3 was one of its input.\<close>

lemma skip_R3: "skip_blank z = None \<Longrightarrow> skip_blank (R3 q z) = None"
proof -
  have "prefix (takeWhile is_space (R3 q z)) (takeWhile is_space z)"
    by (rule agree_run [OF R3_agree]) simp
  then have "set (takeWhile is_space (R3 q z)) \<subseteq> set (takeWhile is_space z)"
    by (rule set_mono_prefix)
  moreover assume "skip_blank z = None"
  ultimately show ?thesis
    by (auto simp: skip_blank_None)
qed

lemma list_R3: "list_match z = None \<Longrightarrow> list_match (R3 q z) = None"
proof (induction z arbitrary: q)
  case Nil
  then show ?case
    by (simp add: R3_hd)
next
  case (Cons a z)
  from Cons.prems have "R3 q (a # z) = a # R3 (Some a) z"
    by (subst replace_list) simp
  moreover have "list_match (a # R3 (Some a) z) = None"
    using Cons.prems Cons.IH [of "Some a"]
    by (auto simp: list_match_Cons intro: skip_R3 split: if_splits)
  ultimately show ?case
    by simp
qed

lemma list_match_dash:
  "\<forall>c \<in> set u. is_space c \<Longrightarrow> skip_blank v = None \<Longrightarrow> list_match (u @ DASH # v) = None"
  by (induction u) (simp_all add: list_match_Cons)

lemma calm3_dash:
  assumes "skip_blank v = None" and "everywhere calm3 (Some DASH) v"
  shows "\<forall>c \<in> set i. is_space c \<Longrightarrow> everywhere calm3 p (i @ DASH # v)"
proof (induction i arbitrary: p)
  case Nil
  have "list_match ([] @ DASH # v) = None"
    using assms(1) by (intro list_match_dash) simp_all
  then have "calm3 p (DASH # v)"
    by (intro calm3_bol) simp
  with assms(2) show ?case
    by simp
next
  case (Cons a i)
  then have "list_match ((a # i) @ DASH # v) = None"
    using assms(1) by (intro list_match_dash) simp_all
  then have "calm3 p ((a # i) @ DASH # v)"
    by (rule calm3_bol)
  with Cons show ?case
    by simp
qed

lemma R3_calm3: "everywhere calm3 p (R3 p x)"
proof (induction x arbitrary: p rule: length_induct)
  case (1 x)
  show ?case
  proof (cases "if bol p then list_match x else None")
    case None
    show ?thesis
    proof (cases x)
      case Nil
      with None show ?thesis
        by (subst replace_list) simp
    next
      case (Cons a r)
      have "calm3 p (a # R3 (Some a) r)"
      proof (cases "bol p")
        case True
        with None Cons have "list_match (a # r) = None"
          by simp
        then have "list_match (a # R3 (Some a) r) = None"
          using list_R3 [of r "Some a"]
          by (auto simp: list_match_Cons intro: skip_R3 split: if_splits)
        then show ?thesis
          by (rule calm3_bol)
      next
        case False
        then show ?thesis
          by simp
      qed
      moreover have "everywhere calm3 (Some a) (R3 (Some a) r)"
        using "1.IH" Cons by simp
      ultimately show ?thesis
        using None Cons by (subst replace_list) simp
    qed
  next
    case (Some ir)
    obtain i r where ir: "ir = (i, r)" by (cases ir)
    with Some have lm: "list_match x = Some (i, r)"
      by (simp split: if_splits)
    from list_match_Some [OF this] have i: "\<forall>c \<in> set i. is_space c"
      and r: "LF \<notin> set (takeWhile is_space r)"
      by blast+
    have "length r < length x"
      using lm by (rule list_match_shorter)
    with "1.IH" have "everywhere calm3 (Some LF) (R3 (Some LF) r)"
      by simp
    then have "everywhere calm3 (Some SPACE) (R3 (Some LF) r)"
      by (rule calm3_weaken) simp
    then have "everywhere calm3 (Some DASH) (SPACE # R3 (Some LF) r)"
      by simp
    moreover have "skip_blank (SPACE # R3 (Some LF) r) = None"
    proof -
      from r have "skip_blank r = None"
        by (simp add: skip_blank_None)
      then have "skip_blank (R3 (Some LF) r) = None"
        by (rule skip_R3)
      then show ?thesis by simp
    qed
    ultimately have "everywhere calm3 p (i @ DASH # SPACE # R3 (Some LF) r)"
      using i by (intro calm3_dash)
    then show ?thesis
      using Some ir by (subst replace_list) simp
  qed
qed

subsection \<open>Headings of the output of step 4 have one space\<close>

lemma calm4_Nil [simp]: "calm4 p []"
  by (simp add: calm4_def heading_match_def)

lemma calm4_not_bol [simp]: "\<not> bol p \<Longrightarrow> calm4 p v"
  by (simp add: calm4_def)

lemma calm4_none: "heading_match v = None \<Longrightarrow> calm4 p v"
  by (simp add: calm4_def)

lemma calm4_skip:
  "\<not> bol p \<Longrightarrow> \<forall>c \<in> set u. \<not> is_line_terminator c \<Longrightarrow> everywhere calm4 (lastp p u) v \<Longrightarrow>
     everywhere calm4 p (u @ v)"
proof (induction u arbitrary: p)
  case Nil
  then show ?case by simp
next
  case (Cons a u)
  have "\<not> bol (Some a)"
    using Cons.prems(2) by (simp add: bol_def)
  then have "everywhere calm4 (Some a) (u @ v)"
    using Cons.prems by (intro Cons.IH) simp_all
  with Cons.prems(1) show ?case
    by simp
qed

lemma line_text_None: "line_text (a # g) = None \<longleftrightarrow> is_line_terminator a"
  by (simp add: line_text_def is_dot_def)

lemma gap_True_None: "gap_text True g = None \<longleftrightarrow> (\<forall>c \<in> set g. is_line_terminator c)"
proof (induction g)
  case Nil
  show ?case by simp
next
  case (Cons a g)
  show ?case
  proof (cases "is_space a")
    case True
    with Cons show ?thesis
      by (cases "gap_text True g") (auto simp: line_text_None)
  next
    case False
    then have "\<not> is_line_terminator a"
      using terminator_is_space by blast
    with False show ?thesis
      by (simp add: line_text_None)
  qed
qed

lemma gap_False_Cons: "gap_text False (a # s) = (if is_space a then gap_text True s else None)"
  by (cases "gap_text True s") simp_all

lemma hash_run:
  assumes "\<forall>x \<in> set h. x = HASH" and "c \<noteq> HASH"
  shows "takeWhile (is_char HASH) (h @ c # g) = h" and "dropWhile (is_char HASH) (h @ c # g) = c # g"
  using assms by (induction h) (simp_all add: is_char_def)

lemma space_not_HASH: "is_space c \<Longrightarrow> c \<noteq> HASH"
  by (auto simp: is_space_def)

lemma heading_match_intro:
  assumes "h \<noteq> []" and "length h \<le> 6" and "\<forall>x \<in> set h. x = HASH" and "is_space c"
    and "\<not> (\<forall>d \<in> set g. is_line_terminator d)"
  shows "heading_match (h @ c # g) \<noteq> None"
proof -
  have "c \<noteq> HASH"
    using assms(4) by (rule space_not_HASH)
  note run = hash_run [OF assms(3) this, of g]
  have "gap_text True g \<noteq> None"
    using assms(5) by (simp add: gap_True_None)
  with assms(4) have "gap_text False (c # g) \<noteq> None"
    by (simp only: gap_False_Cons if_True not_False_eq_True)
  moreover have "1 \<le> length h"
    using assms(1) by (cases h) simp_all
  ultimately show ?thesis
    using assms(2) unfolding heading_match_def run Let_def by simp
qed

lemma R4_terminators: "\<forall>c \<in> set z. is_line_terminator c \<Longrightarrow> R4 q z = z"
proof (induction z arbitrary: q)
  case Nil
  show ?case by (rule R4_hd)
next
  case (Cons a z)
  then have "a \<noteq> HASH"
    by (auto simp: is_line_terminator_def)
  then have "heading_match (a # z) = None"
    by (simp add: heading_match_def is_char_def)
  with Cons show ?case
    by (subst replace_heading) simp
qed

lemma R4_eol: "eol r \<Longrightarrow> eol (R4 q r)"
  using R4_hd(2) [of q "hd r" "tl r"] by (cases r) (auto simp: eol_def R4_hd(1))

lemma R4_first:
  assumes "R4 q z = a # out"
  shows "\<exists>z'. z = a # z'"
proof (cases z)
  case Nil
  with assms show ?thesis
    by (simp add: R4_hd(1))
next
  case (Cons b z')
  from R4_hd(2) [of q b z'] obtain o' where "R4 q (b # z') = b # o'" ..
  with assms Cons show ?thesis
    by simp
qed

text \<open>Where a heading of the output begins, a heading of the input begins.\<close>

lemma R4_marker:
  assumes "is_space c" and "\<not> (\<forall>d \<in> set g. is_line_terminator d)"
  shows "\<forall>x \<in> set h. x = HASH \<Longrightarrow> R4 q z = h @ c # g \<Longrightarrow>
    \<exists>c' g'. z = h @ c' # g' \<and> is_space c' \<and> \<not> (\<forall>d \<in> set g'. is_line_terminator d)"
proof (induction h arbitrary: q z)
  case Nil
  then have "R4 q z = c # g"
    by simp
  from R4_first [OF this] obtain z' where z: "z = c # z'" ..
  have "c \<noteq> HASH"
    using assms(1) by (rule space_not_HASH)
  then have "heading_match (c # z') = None"
    by (simp add: heading_match_def is_char_def)
  then have "R4 q z = c # R4 (Some c) z'"
    unfolding z by (subst replace_heading) simp
  with Nil have g: "g = R4 (Some c) z'"
    by simp
  have "\<not> (\<forall>d \<in> set z'. is_line_terminator d)"
  proof
    assume "\<forall>d \<in> set z'. is_line_terminator d"
    then have "\<forall>d \<in> set g. is_line_terminator d"
      unfolding g by (simp add: R4_terminators)
    with assms(2) show False ..
  qed
  with z assms(1) show ?case
    by simp
next
  case (Cons a h)
  then have a: "a = HASH" and h: "\<forall>x \<in> set h. x = HASH"
    by simp_all
  from Cons.prems(2) a have "R4 q z = HASH # h @ c # g"
    by simp
  from R4_first [OF this] obtain z' where z: "z = HASH # z'" ..
  show ?case
  proof (cases "if bol q then heading_match z else None")
    case None
    then have "R4 q z = HASH # R4 (Some HASH) z'"
      unfolding z by (subst replace_heading) simp
    with Cons.prems(2) a have "R4 (Some HASH) z' = h @ c # g"
      by simp
    from Cons.IH [OF h this] z a show ?thesis
      by auto
  next
    case (Some m)
    obtain h0 t0 r0 where m: "m = (h0, t0, r0)" by (cases m)
    with Some have hm: "heading_match z = Some (h0, t0, r0)"
      by (simp split: if_splits)
    from heading_match_Some [OF this] obtain w0 where z0: "z = h0 @ w0 @ t0 @ r0"
      and h0: "\<forall>c \<in> set h0. c = HASH" and w0: "w0 \<noteq> []" "\<forall>c \<in> set w0. is_space c"
      and t0: "t0 \<noteq> []" "\<forall>c \<in> set t0. is_dot c"
      by blast
    have "R4 q z = h0 @ SPACE # t0 @ R4 (Some (last t0)) r0"
      using Some m by (subst replace_heading) simp
    with Cons.prems(2) have eq: "(a # h) @ c # g = h0 @ SPACE # t0 @ R4 (Some (last t0)) r0"
      by simp
    have "takeWhile (is_char HASH) ((a # h) @ c # g) = a # h"
      using Cons.prems(1) assms(1) by (intro hash_run space_not_HASH)
    moreover have "takeWhile (is_char HASH) (h0 @ SPACE # t0 @ R4 (Some (last t0)) r0) = h0"
      using h0 by (intro hash_run) simp_all
    ultimately have "h0 = a # h"
      using eq by metis
    obtain c' w' where w: "w0 = c' # w'"
      using w0(1) by (cases w0) auto
    have "\<not> (\<forall>d \<in> set (w' @ t0 @ r0). is_line_terminator d)"
      using t0 by (cases t0) (auto simp: is_dot_def)
    with z0 w w0(2) \<open>h0 = a # h\<close> show ?thesis
      by (intro exI [of _ c'] exI [of _ "w' @ t0 @ r0"]) simp
  qed
qed

lemma heading_R4:
  assumes "heading_match (a # z) = None"
  shows "heading_match (a # R4 q z) = None"
proof (rule ccontr)
  assume "heading_match (a # R4 q z) \<noteq> None"
  then obtain h t r where "heading_match (a # R4 q z) = Some (h, t, r)"
    by auto
  from heading_match_Some [OF this] obtain w where out: "a # R4 q z = h @ w @ t @ r"
    and h: "h \<noteq> []" "length h \<le> 6" "\<forall>c \<in> set h. c = HASH"
    and w: "w \<noteq> []" "\<forall>c \<in> set w. is_space c" and t: "t \<noteq> []" "\<forall>c \<in> set t. is_dot c"
    by blast
  obtain h' where h': "h = a # h'"
    using out h(1) by (cases h) auto
  obtain c w' where w': "w = c # w'"
    using w(1) by (cases w) auto
  have g: "\<not> (\<forall>d \<in> set (w' @ t @ r). is_line_terminator d)"
    using t by (cases t) (auto simp: is_dot_def)
  have c: "is_space c"
    using w(2) w' by simp
  have "R4 q z = h' @ c # (w' @ t @ r)"
    using out h' w' by simp
  moreover have "\<forall>x \<in> set h'. x = HASH"
    using h(3) h' by simp
  ultimately obtain c' g' where "z = h' @ c' # g'" "is_space c'"
    "\<not> (\<forall>d \<in> set g'. is_line_terminator d)"
    using R4_marker [OF c g] by blast
  then have "heading_match (h @ c' # g') \<noteq> None"
    using h by (intro heading_match_intro)
  with \<open>z = h' @ c' # g'\<close> h' assms show False
    by simp
qed

text \<open>The replacement of a heading is a heading with the same marker and text.\<close>

lemma gap_True_tr: "gap_text ok g = Some (t, r) \<Longrightarrow> gap_text True (t @ r) = Some (t, r)"
proof (induction g arbitrary: ok)
  case Nil
  then show ?case by simp
next
  case (Cons a g)
  have here: ?thesis if lt: "line_text (a # g) = Some (t, r)"
    and same: "gap_text True (a # g) = line_text (a # g)"
  proof -
    from line_text_parts [OF lt] have "t @ r = a # g"
      by simp
    with lt same show ?thesis
      by simp
  qed
  show ?case
  proof (cases "gap_text True g")
    case None
    with Cons.prems have "line_text (a # g) = Some (t, r)"
      by (simp split: if_splits)
    moreover from None have "gap_text True (a # g) = line_text (a # g)"
      by simp
    ultimately show ?thesis
      by (rule here)
  next
    case (Some x)
    show ?thesis
    proof (cases "is_space a")
      case True
      with Some Cons.prems have "gap_text True g = Some (t, r)"
        by simp
      then show ?thesis
        by (rule Cons.IH)
    next
      case False
      with Cons.prems have "line_text (a # g) = Some (t, r)"
        by (simp split: if_splits)
      moreover from False have "gap_text True (a # g) = line_text (a # g)"
        by simp
      ultimately show ?thesis
        by (rule here)
    qed
  qed
qed

lemma gap_out:
  assumes "gap_text True (t @ r) = Some (t, r)" and "t \<noteq> []" and "\<forall>c \<in> set t. is_dot c"
    and "eol y" and "(\<forall>c \<in> set r. is_line_terminator c) \<Longrightarrow> y = r"
  shows "gap_text True (t @ y) = Some (t, y)"
proof -
  obtain a t' where t: "t = a # t'"
    using assms(2) by (cases t) auto
  have dots: "takeWhile is_dot (t @ y) = t" "dropWhile is_dot (t @ y) = y"
    using assms(3,4) by (cases y; simp add: eol_def is_dot_def takeWhile_append2 dropWhile_append2)+
  then have lt: "line_text (t @ y) = Some (t, y)"
    using assms(2) by (simp add: line_text_def)
  show ?thesis
  proof (cases "is_space a")
    case False
    with lt show ?thesis
      by (simp add: t)
  next
    case True
    show ?thesis
    proof (cases "gap_text True (t' @ r)")
      case (Some x)
      with assms(1) True have "gap_text True (t' @ r) = Some (t, r)"
        by (simp add: t)
      from gap_text_Some [OF this] obtain w where "t' @ r = w @ t @ r"
        by blast
      then have "length (t' @ r) = length (w @ t @ r)"
        by simp
      then show ?thesis
        by (simp add: t)
    next
      case None
      then have all: "\<forall>c \<in> set (t' @ r). is_line_terminator c"
        by (simp add: gap_True_None)
      with assms(3) have "t' = []"
        by (cases t') (auto simp: t is_dot_def)
      moreover from all assms(5) have "y = r"
        by simp
      ultimately show ?thesis
        using assms(1) by (simp add: t)
    qed
  qed
qed

lemma heading_out:
  assumes "heading_match x = Some (h, t, r)"
  shows "heading_match (h @ SPACE # t @ R4 q r) = Some (h, t, R4 q r)"
proof -
  from assms have len: "1 \<le> length h" "length h \<le> 6"
    and g: "gap_text False (dropWhile (is_char HASH) x) = Some (t, r)"
    by (auto simp: heading_match_def Let_def split: if_splits)
  from heading_match_Some [OF assms] have h: "\<forall>c \<in> set h. c = HASH"
    and t: "t \<noteq> []" "\<forall>c \<in> set t. is_dot c" and r: "eol r"
    by blast+
  have "gap_text True (t @ r) = Some (t, r)"
    using g by (rule gap_True_tr)
  then have "gap_text True (t @ R4 q r) = Some (t, R4 q r)"
    using t R4_eol [OF r] R4_terminators by (rule gap_out)
  then have "gap_text False (SPACE # t @ R4 q r) = Some (t, R4 q r)"
    by (simp add: gap_False_Cons)
  moreover note hash_run [OF h, of SPACE "t @ R4 q r"]
  ultimately show ?thesis
    using len unfolding heading_match_def Let_def by simp
qed

lemma R4_calm4: "everywhere calm4 p (R4 p x)"
proof (induction x arbitrary: p rule: length_induct)
  case (1 x)
  show ?case
  proof (cases "if bol p then heading_match x else None")
    case None
    show ?thesis
    proof (cases x)
      case Nil
      with None show ?thesis
        by (subst replace_heading) simp
    next
      case (Cons a r)
      have "calm4 p (a # R4 (Some a) r)"
      proof (cases "bol p")
        case True
        with None Cons have "heading_match (a # r) = None"
          by simp
        then have "heading_match (a # R4 (Some a) r) = None"
          by (rule heading_R4)
        then show ?thesis
          by (rule calm4_none)
      next
        case False
        then show ?thesis
          by simp
      qed
      moreover have "everywhere calm4 (Some a) (R4 (Some a) r)"
        using "1.IH" Cons by simp
      ultimately show ?thesis
        using None Cons by (subst replace_heading) simp
    qed
  next
    case (Some m)
    obtain h t r where m: "m = (h, t, r)" by (cases m)
    with Some have hm: "heading_match x = Some (h, t, r)"
      by (simp split: if_splits)
    from heading_match_Some [OF this] have h: "h \<noteq> []" "\<forall>c \<in> set h. c = HASH"
      and t: "t \<noteq> []" "\<forall>c \<in> set t. is_dot c"
      by blast+
    define y where "y = R4 (Some (last t)) r"
    obtain h' where h': "h = HASH # h'"
      using h by (cases h) auto
    have "length r < length x"
      using hm by (rule heading_match_shorter)
    with "1.IH" have "everywhere calm4 (Some (last t)) y"
      by (simp add: y_def)
    with t(1) have "everywhere calm4 (lastp (Some HASH) (h' @ SPACE # t)) y"
      by (simp add: lastp_def)
    moreover have "\<forall>c \<in> set (h' @ SPACE # t). \<not> is_line_terminator c"
      using h(2) t(2) by (auto simp: h' is_dot_def is_line_terminator_def)
    ultimately have rest: "everywhere calm4 (Some HASH) ((h' @ SPACE # t) @ y)"
      by (intro calm4_skip) simp_all
    have "heading_match (h @ SPACE # t @ y) = Some (h, t, y)"
      unfolding y_def using hm by (rule heading_out)
    then have "calm4 p (h @ SPACE # t @ y)"
      by (simp add: calm4_def)
    with rest have "everywhere calm4 p (h @ SPACE # t @ y)"
      by (simp add: h')
    then show ?thesis
      using Some m by (subst replace_heading) (simp add: y_def)
  qed
qed

subsection \<open>Cutting white space off the end\<close>

lemma everywhere_cut:
  "(\<And>u v. y = u @ v \<Longrightarrow> Q (lastp p u) (v @ e) \<Longrightarrow> Q (lastp p u) v) \<Longrightarrow>
     everywhere Q p (y @ e) \<Longrightarrow> everywhere Q p y"
proof (induction y arbitrary: p)
  case Nil
  from Nil(2) have "Q p e"
    using everywhere_here by fastforce
  with Nil(1) [of "[]" "[]"] show ?case
    by simp
next
  case (Cons a y)
  from Cons.prems(2) have here: "Q p ((a # y) @ e)" and rest: "everywhere Q (Some a) (y @ e)"
    by simp_all
  have "Q p (a # y)"
    using Cons.prems(1) [of "[]" "a # y"] here by simp
  moreover have "everywhere Q (Some a) y"
  proof (rule Cons.IH [OF _ rest])
    fix u v
    assume "y = u @ v" and "Q (lastp (Some a) u) (v @ e)"
    with Cons.prems(1) [of "a # u" v] show "Q (lastp (Some a) u) v"
      by simp
  qed
  ultimately show ?case
    by simp
qed

lemma takeWhile_append_prefix: "prefix (takeWhile P v) (takeWhile P (v @ e))"
  by (induction v) simp_all

lemma calm1_cut: "calm1 p (v @ e) \<Longrightarrow> calm1 p v"
  using prefix_length_le [OF takeWhile_append_prefix [of "is_char LF" v e]]
  by (simp add: calm1_def)

lemma calm2_cut: "calm2 p (v @ e) \<Longrightarrow> calm2 p v"
proof (rule ccontr)
  assume "calm2 p (v @ e)" and "\<not> calm2 p v"
  from this(2) obtain w r where "fence_match v = Some (w, r)"
    by (auto simp: calm2_def)
  then have "fence_match (v @ e) = Some (w, r @ e)"
    by (simp add: fence_match_Some)
  with \<open>calm2 p (v @ e)\<close> show False
    by (simp add: calm2_def)
qed

lemma calm3_cut: "calm3 p (v @ e) \<Longrightarrow> calm3 p v"
proof (rule ccontr)
  assume "calm3 p (v @ e)" and "\<not> calm3 p v"
  from this(2) obtain i r where b: "bol p" and "list_match v = Some (i, r)"
    by (auto simp: calm3_def)
  from list_match_Some [OF this(2)] obtain b where "v = i @ DASH # b @ LF # r"
    and "\<forall>c \<in> set i. is_space c" and "\<forall>c \<in> set b. is_space c"
    by blast
  then have "list_match (v @ e) \<noteq> None"
    using list_match_prefix [of i b "r @ e"] by simp
  with \<open>calm3 p (v @ e)\<close> b show False
    by (simp add: calm3_def)
qed

lemma gap_run_True:
  "\<forall>x \<in> set W. is_space x \<Longrightarrow> \<not> is_space c \<Longrightarrow> gap_text True (W @ c # s) = line_text (c # s)"
proof (induction W)
  case Nil
  then show ?case by simp
next
  case (Cons a W)
  then have "gap_text True (W @ c # s) = line_text (c # s)"
    by simp
  moreover have "line_text (c # s) \<noteq> None"
    using Cons.prems(2) terminator_is_space by (auto simp: line_text_None)
  ultimately show ?case
    using Cons.prems(1) by auto
qed

lemma gap_run:
  assumes "W \<noteq> []" and "\<forall>x \<in> set W. is_space x" and "\<not> is_space c"
  shows "gap_text ok (W @ c # s) = line_text (c # s)"
proof -
  obtain a W' where W: "W = a # W'"
    using assms(1) by (cases W) auto
  with assms have "gap_text True (W' @ c # s) = line_text (c # s)"
    by (intro gap_run_True) simp_all
  moreover have "line_text (c # s) \<noteq> None"
    using assms(3) terminator_is_space by (auto simp: line_text_None)
  ultimately show ?thesis
    using assms(2) W by auto
qed

lemma calm4_cut:
  assumes "v \<noteq> []" and "\<not> is_space (last v)" and "calm4 p (v @ e)"
  shows "calm4 p v"
proof (cases "heading_match v")
  case None
  then show ?thesis
    by (rule calm4_none)
next
  case (Some m)
  obtain h t r where "m = (h, t, r)"
    by (cases m)
  with Some have hm: "heading_match v = Some (h, t, r)"
    by simp
  define g where "g = dropWhile (is_char HASH) v"
  from hm have h: "h = takeWhile (is_char HASH) v" and len: "1 \<le> length h" "length h \<le> 6"
    and gt: "gap_text False g = Some (t, r)"
    by (auto simp: heading_match_def Let_def g_def split: if_splits)
  have v: "v = h @ g"
    by (simp add: h g_def)
  from gt have g: "g \<noteq> []"
    by auto
  with v assms(2) have lg: "\<not> is_space (last g)"
    by simp
  define W where "W = takeWhile is_space g"
  have "dropWhile is_space g \<noteq> []"
  proof
    assume "dropWhile is_space g = []"
    then have "\<forall>x \<in> set g. is_space x"
      by simp
    with g lg show False
      by simp
  qed
  then obtain c g' where d: "dropWhile is_space g = c # g'"
    by (cases "dropWhile is_space g") auto
  then have c: "\<not> is_space c"
    using hd_dropWhile [of is_space g] by auto
  have gW: "g = W @ c # g'"
    using d by (metis W_def takeWhile_dropWhile_id)
  have W: "\<forall>x \<in> set W. is_space x"
    by (auto simp: W_def dest: set_takeWhileD)
  have "W \<noteq> []"
  proof
    assume "W = []"
    with gW gt c show False
      by (simp add: gap_False_Cons)
  qed
  note run = gap_run [OF this W c]
  from gt have "line_text (c # g') = Some (t, r)"
    by (simp add: gW run)
  from line_text_parts [OF this] have tr: "t @ r = c # g'"
    by simp
  obtain t1 r1 where lt1: "line_text (c # g' @ e) = Some (t1, r1)"
    using c terminator_is_space by (cases "line_text (c # g' @ e)") (auto simp: line_text_None)
  from line_text_parts [OF this] have tr1: "t1 @ r1 = c # g' @ e"
    by simp
  obtain a W' where W': "W = a # W'"
    using \<open>W \<noteq> []\<close> by (cases W) auto
  have a: "a \<noteq> HASH"
    using W W' by (auto dest: space_not_HASH)
  have hs: "\<forall>x \<in> set h. x = HASH"
    unfolding h by (auto simp: is_char_def dest: set_takeWhileD)
  have "v @ e = h @ a # (W' @ c # g' @ e)"
    by (simp add: v gW W')
  then have "takeWhile (is_char HASH) (v @ e) = h"
    and "dropWhile (is_char HASH) (v @ e) = W @ c # g' @ e"
    using hash_run [OF hs a, of "W' @ c # g' @ e"] by (simp_all add: W')
  moreover have "gap_text False (W @ c # g' @ e) = Some (t1, r1)"
    using run [of False "g' @ e"] lt1 by simp
  ultimately have "heading_match (v @ e) = Some (h, t1, r1)"
    using len by (simp add: heading_match_def Let_def)
  have "v = h @ [SPACE] @ t @ r" if b: "bol p"
  proof -
    from assms(3) b \<open>heading_match (v @ e) = Some (h, t1, r1)\<close>
    have "v @ e = h @ [SPACE] @ t1 @ r1"
      by (simp add: calm4_def)
    then have "W @ (c # g' @ e) = [SPACE] @ (c # g' @ e)"
      by (simp add: v gW tr1)
    then have "W = [SPACE]"
      by (simp only: same_append_eq append_same_eq)
    then show ?thesis
      by (simp add: v gW tr)
  qed
  then show ?thesis
    unfolding calm4_def hm by simp
qed

subsection \<open>The first code unit\<close>

lemma trim_split:
  assumes "x = [] \<or> \<not> is_space (hd x)"
  shows "\<exists>e. x = trim x @ e"
proof -
  from assms have "dropWhile is_space x = x"
    by (cases x) auto
  then have "trim x = rev (dropWhile is_space (rev x))"
    by (simp add: trim_def)
  moreover have "rev x = takeWhile is_space (rev x) @ dropWhile is_space (rev x)"
    by simp
  then have "x = rev (dropWhile is_space (rev x)) @ rev (takeWhile is_space (rev x))"
    by (metis rev_append rev_rev_ident)
  ultimately show ?thesis
    by metis
qed

lemma steps_keep_first:
  assumes "s = [] \<or> \<not> is_space (hd s)"
  shows "step1 s = [] \<or> \<not> is_space (hd (step1 s))"
    and "step2 s = [] \<or> \<not> is_space (hd (step2 s))"
    and "R3 p s = [] \<or> \<not> is_space (hd (R3 p s))"
    and "R4 p s = [] \<or> \<not> is_space (hd (R4 p s))"
proof -
  show "step1 s = [] \<or> \<not> is_space (hd (step1 s))"
    using assms step1_hd [of "hd s" "tl s"] by (cases s) auto
  show "step2 s = [] \<or> \<not> is_space (hd (step2 s))"
    using assms step2_hd(2) [of "hd s" "tl s"] by (cases s) auto
  show "R3 p s = [] \<or> \<not> is_space (hd (R3 p s))"
    using assms R3_hd(2) [of p "hd s" "tl s"] by (cases s) (auto simp: R3_hd(1))
  show "R4 p s = [] \<or> \<not> is_space (hd (R4 p s))"
    using assms R4_hd(2) [of p "hd s" "tl s"] by (cases s) (auto simp: R4_hd(1))
qed

subsection \<open>The fixed points of the post-processor\<close>

lemma calm_fixed:
  assumes "everywhere calm1 None y" and "everywhere calm2 None y" and "everywhere calm3 None y"
    and "everywhere calm4 None y" and "y = [] \<or> (\<not> is_space (hd y) \<and> \<not> is_space (last y))"
  shows "postProcessForMdx y = y"
proof -
  have "step1 y = y"
    using assms(1) by (rule calm1_fixed)
  moreover have "step2 y = y"
    using assms(2) by (rule calm2_fixed)
  moreover have "step3 y = y"
    using assms(3) by (simp add: step3_def replace_def calm3_fixed)
  moreover have "step4 y = y"
    using assms(4) by (simp add: step4_def replace_def calm4_fixed)
  moreover have "trim y = y"
    using assms(5) by (rule trim_fixed)
  ultimately show ?thesis
    by (simp add: postProcessForMdx_def)
qed

lemma output_calm:
  assumes "s = [] \<or> \<not> is_space (hd s)"
  shows "everywhere calm1 None (postProcessForMdx s)"
    and "everywhere calm2 None (postProcessForMdx s)"
    and "everywhere calm3 None (postProcessForMdx s)"
    and "everywhere calm4 None (postProcessForMdx s)"
proof -
  define x1 where "x1 = step1 s"
  define x2 where "x2 = step2 x1"
  define x3 where "x3 = R3 None x2"
  define x4 where "x4 = R4 None x3"
  define y where "y = trim x4"
  have y: "postProcessForMdx s = y"
    by (simp add: postProcessForMdx_def step3_def step4_def replace_def x1_def x2_def x3_def
          x4_def y_def)
  have "x1 = [] \<or> \<not> is_space (hd x1)"
    unfolding x1_def using assms by (rule steps_keep_first)
  then have "x2 = [] \<or> \<not> is_space (hd x2)"
    unfolding x2_def by (rule steps_keep_first)
  then have "x3 = [] \<or> \<not> is_space (hd x3)"
    unfolding x3_def by (rule steps_keep_first)
  then have "x4 = [] \<or> \<not> is_space (hd x4)"
    unfolding x4_def by (rule steps_keep_first)
  from trim_split [OF this] obtain e where x4: "x4 = y @ e"
    unfolding y_def ..
  have ends: "y = [] \<or> (\<not> is_space (hd y) \<and> \<not> is_space (last y))"
    unfolding y_def by (rule trim_ends)
  have c1: "everywhere calm1 None x1"
    unfolding x1_def by (rule step1_calm)
  have "everywhere calm1 None x4"
    unfolding x4_def x3_def x2_def
    by (intro R4_calm1_aux R3_calm1_aux step2_calm1_aux c1)
  then have "everywhere calm1 None y"
    unfolding x4 by (rule everywhere_cut [rotated]) (rule calm1_cut)
  then show "everywhere calm1 None (postProcessForMdx s)"
    by (simp only: y)
  have "everywhere calm2 None x4"
    unfolding x4_def x3_def x2_def
    by (intro R4_calm2_aux R3_calm2_aux step2_calm2_aux c1)
  then have "everywhere calm2 None y"
    unfolding x4 by (rule everywhere_cut [rotated]) (rule calm2_cut)
  then show "everywhere calm2 None (postProcessForMdx s)"
    by (simp only: y)
  have "everywhere calm3 None x4"
    unfolding x4_def x3_def by (intro R4_calm3 R3_calm3)
  then have "everywhere calm3 None y"
    unfolding x4 by (rule everywhere_cut [rotated]) (rule calm3_cut)
  then show "everywhere calm3 None (postProcessForMdx s)"
    by (simp only: y)
  have "everywhere calm4 None x4"
    unfolding x4_def by (rule R4_calm4)
  then have "everywhere calm4 None y"
    unfolding x4
  proof (rule everywhere_cut [rotated])
    fix u v
    assume uv: "y = u @ v" and c: "calm4 (lastp None u) (v @ e)"
    show "calm4 (lastp None u) v"
    proof (cases "v = []")
      case True
      then show ?thesis by simp
    next
      case False
      with uv ends have "\<not> is_space (last v)"
        by auto
      with False show ?thesis
        using c by (rule calm4_cut)
    qed
  qed
  then show "everywhere calm4 None (postProcessForMdx s)"
    by (simp only: y)
qed

lemma output_ends:
  "postProcessForMdx s = [] \<or>
     (\<not> is_space (hd (postProcessForMdx s)) \<and> \<not> is_space (last (postProcessForMdx s)))"
  unfolding postProcessForMdx_def by (rule trim_ends)

text \<open>Whatever the input, the second application gives a text that no further one changes.\<close>

lemma second_pass_fixed:
  "postProcessForMdx (postProcessForMdx (postProcessForMdx s)) =
     postProcessForMdx (postProcessForMdx s)"
proof -
  have "postProcessForMdx s = [] \<or> \<not> is_space (hd (postProcessForMdx s))"
    using output_ends [of s] by auto
  from output_calm [OF this] output_ends [of "postProcessForMdx s"] show ?thesis
    by (rule calm_fixed)
qed

text \<open>
  Claim C1, as amended. On every text that does not start with white space (the empty text
  included) the post-processor is idempotent: applying it twice gives what applying it once
  gives.
\<close>

theorem idempotent_without_leading_space:
  assumes "s = [] \<or> \<not> is_space (hd s)"
  shows "postProcessForMdx (postProcessForMdx s) = postProcessForMdx s"
  using output_calm [OF assms] output_ends [of s] by (rule calm_fixed)

theorem idempotent_without_leading_space_witness:
  "(js ''#  T\<newline>\<newline>\<newline>\<newline>```js\<newline>\<newline>x\<newline>- \<newline>y '' = [] \<or>
      \<not> is_space (hd (js ''#  T\<newline>\<newline>\<newline>\<newline>```js\<newline>\<newline>x\<newline>- \<newline>y ''))) \<and>
   postProcessForMdx (postProcessForMdx (js ''#  T\<newline>\<newline>\<newline>\<newline>```js\<newline>\<newline>x\<newline>- \<newline>y '')) =
     postProcessForMdx (js ''#  T\<newline>\<newline>\<newline>\<newline>```js\<newline>\<newline>x\<newline>- \<newline>y '') \<and>
   postProcessForMdx (js ''#  T\<newline>\<newline>\<newline>\<newline>```js\<newline>\<newline>x\<newline>- \<newline>y '') =
     js ''# T\<newline>\<newline>```js\<newline>x\<newline>- y''"
proof -
  have 1: "js ''#  T\<newline>\<newline>\<newline>\<newline>```js\<newline>\<newline>x\<newline>- \<newline>y '' = [] \<or>
      \<not> is_space (hd (js ''#  T\<newline>\<newline>\<newline>\<newline>```js\<newline>\<newline>x\<newline>- \<newline>y ''))"
    by (simp add: js_def is_space_def)
  have 2: "postProcessForMdx (js ''#  T\<newline>\<newline>\<newline>\<newline>```js\<newline>\<newline>x\<newline>- \<newline>y '') =
     js ''# T\<newline>\<newline>```js\<newline>x\<newline>- y''"
    by code_simp
  from idempotent_without_leading_space [OF 1] 1 2 show ?thesis
    by simp
qed

text \<open>
  The claim as stated fails when the text starts with white space before a heading
  marker: the marker is not at a line start in the first pass, the trim puts it there, and
  the second pass rewrites the heading.
\<close>

theorem idempotence_counterexample:
  "postProcessForMdx (js '' #  x'') = js ''#  x'' \<and>
   postProcessForMdx (postProcessForMdx (js '' #  x'')) = js ''# x'' \<and>
   postProcessForMdx (postProcessForMdx (js '' #  x'')) \<noteq> postProcessForMdx (js '' #  x'')"
  by code_simp

section \<open>Prefixes and suffixes\<close>

lemma endsWith_append: "endsWith (a @ b) b"
  by (simp add: endsWith_def)

lemma startsWith_append: "startsWith (a @ b) a"
  by (simp add: startsWith_def)


section \<open>The image rule\<close>

text \<open>
  Claim C6. For an image element with attributes alt, src and title: when src starts with
  \<^verbatim>\<open>data:\<close> the rule emits \<^verbatim>\<open>![alt](src "title")\<close>, and without the title clause when
  the title is empty or absent; otherwise it emits \<^verbatim>\<open><img src="..." alt="..." title="..." />\<close>,
  and without the title attribute when the title is empty or absent.
\<close>

theorem image_rule:
  \<open>(startsWith src (js ''data:'') \<and> title \<noteq> [] \<longrightarrow>
      image_replacement (Some alt) (Some src) (Some title) =
        js ''!['' @ alt @ js '']('' @ src @ js '' "'' @ title @ js ''")'') \<and>
   (startsWith src (js ''data:'') \<longrightarrow>
      image_replacement (Some alt) (Some src) None = js ''!['' @ alt @ js '']('' @ src @ js '')'' \<and>
      image_replacement (Some alt) (Some src) (Some []) = js ''!['' @ alt @ js '']('' @ src @ js '')'') \<and>
   (\<not> startsWith src (js ''data:'') \<and> title \<noteq> [] \<longrightarrow>
      image_replacement (Some alt) (Some src) (Some title) =
        js ''<img src="'' @ src @ js ''" alt="'' @ alt @ js ''" title="'' @ title @ js ''" />'') \<and>
   (\<not> startsWith src (js ''data:'') \<longrightarrow>
      image_replacement (Some alt) (Some src) None =
        js ''<img src="'' @ src @ js ''" alt="'' @ alt @ js ''" />'' \<and>
      image_replacement (Some alt) (Some src) (Some []) =
        js ''<img src="'' @ src @ js ''" alt="'' @ alt @ js ''" />'')\<close>
  by (simp add: image_replacement_def or_empty_def js_def)

theorem image_rule_witness:
  \<open>image_replacement (Some (js ''cat'')) (Some (js ''http://x/y.png'')) None =
     js ''<img src="http://x/y.png" alt="cat" />'' \<and>
   image_replacement (Some (js ''cat'')) (Some (js ''data:image/png;base64,AA'')) (Some (js ''t'')) =
     js ''![cat](data:image/png;base64,AA "t")''\<close>
  using image_rule [of "js ''http://x/y.png''" "[]" "js ''cat''"]
        image_rule [of "js ''data:image/png;base64,AA''" "js ''t''" "js ''cat''"]
  by (simp add: startsWith_def js_def)


section \<open>The front matter\<close>

text \<open>
  Claim C5. Whatever the body and the source path, the composed document is the line
  \<^verbatim>\<open>---\<close>, the title, description and date entries, a second line \<^verbatim>\<open>---\<close>, one empty
  line and then the body, unchanged.
\<close>

theorem frontmatter_layout:
  \<open>addMdxFrontmatter date content originalPath =
     js ''---\<newline>'' @
     (js ''title: "'' @ basename originalPath (Some (extname originalPath)) @ js ''"\<newline>'' @
      js ''description: "Converted from DOCX file"\<newline>'' @
      js ''date: "'' @ date @ js ''"\<newline>'') @
     js ''---\<newline>'' @ js ''\<newline>'' @ content \<and>
   startsWith (addMdxFrontmatter date content originalPath) (js ''---\<newline>'') \<and>
   endsWith (addMdxFrontmatter date content originalPath) (js ''\<newline>---\<newline>\<newline>'' @ content)\<close>
proof -
  have \<open>addMdxFrontmatter date content originalPath =
     (js ''---\<newline>title: "'' @ basename originalPath (Some (extname originalPath)) @
      js ''"\<newline>description: "Converted from DOCX file"\<newline>date: "'' @ date @ js ''"'') @
     (js ''\<newline>---\<newline>\<newline>'' @ content)\<close>
    by (simp add: addMdxFrontmatter_def js_def)
  then have \<open>endsWith (addMdxFrontmatter date content originalPath)
      (js ''\<newline>---\<newline>\<newline>'' @ content)\<close>
    by (simp only: endsWith_append)
  then show ?thesis
    by (simp add: addMdxFrontmatter_def js_def startsWith_def)
qed

theorem frontmatter_layout_witness:
  \<open>addMdxFrontmatter (js ''2024-05-17'') (js ''# Title'') (js ''docs/report.docx'') =
     js ''---\<newline>title: "report"\<newline>description: "Converted from DOCX file"\<newline>date: "2024-05-17"\<newline>---\<newline>\<newline># Title'' \<and>
   startsWith (addMdxFrontmatter (js ''2024-05-17'') (js ''# Title'') (js ''docs/report.docx''))
     (js ''---\<newline>'') \<and>
   endsWith (addMdxFrontmatter (js ''2024-05-17'') (js ''# Title'') (js ''docs/report.docx''))
     (js ''\<newline>---\<newline>\<newline># Title'')\<close>
  using frontmatter_layout [of "js ''2024-05-17''" "js ''# Title''" "js ''docs/report.docx''"]
  by (simp add: js_def basename_def extname_def last_portion_def endsWith_def startsWith_def)


section \<open>The conversion orchestrator\<close>

lemma attempts_simps [simp]:
  "attempts [] = []" "attempts (e # tr) = accessed e @ attempts tr"
  "attempts (tr @ tr') = attempts tr @ attempts tr'"
  by (simp_all add: attempts_def)

lemma successes_simps [simp]:
  "successes [] = []" "successes (e # tr) = succeeded e @ successes tr"
  "successes (tr @ tr') = successes tr @ successes tr'"
  by (simp_all add: successes_def)

lemma failures_simps [simp]:
  "failures [] = []" "failures (e # tr) = failed e @ failures tr"
  "failures (tr @ tr') = failures tr @ failures tr'"
  by (simp_all add: failures_def)

lemma writes_simps [simp]:
  "writes [] = []" "writes (e # tr) = written e @ writes tr"
  "writes (tr @ tr') = writes tr @ writes tr'"
  by (simp_all add: writes_def)

lemma extractions_simps [simp]:
  "extractions [] = []" "extractions (e # tr) = extracted e @ extractions tr"
  "extractions (tr @ tr') = extractions tr @ extractions tr'"
  by (simp_all add: extractions_def)

lemma emit_fields [simp]:
  "trace (emit e w) = trace w @ [e]" "files (emit e w) = files w"
  "listing (emit e w) = listing w" "unwritable (emit e w) = unwritable w"
  "uncreatable (emit e w) = uncreatable w"
  by (simp_all add: emit_def)

lemma warnings_fields [simp]:
  "trace (foldl (\<lambda>w m. emit (LogWarning m) w) w ms) = trace w @ map LogWarning ms"
  "files (foldl (\<lambda>w m. emit (LogWarning m) w) w ms) = files w"
  "listing (foldl (\<lambda>w m. emit (LogWarning m) w) w ms) = listing w"
  "unwritable (foldl (\<lambda>w m. emit (LogWarning m) w) w ms) = unwritable w"
  "uncreatable (foldl (\<lambda>w m. emit (LogWarning m) w) w ms) = uncreatable w"
  by (induction ms arbitrary: w) simp_all

lemma quiet_warnings [simp]:
  "attempts (map LogWarning ms) = []" "successes (map LogWarning ms) = []"
  "failures (map LogWarning ms) = []" "writes (map LogWarning ms) = []"
  "extractions (map LogWarning ms) = []"
  by (induction ms) simp_all

text \<open>One conversion: what it adds to the trace, whatever its outcome.\<close>

lemma convert_one:
  assumes "convertDocxToMdx E inputPath outputPath w = (r, w')"
  shows "\<exists>new. trace w' = trace w @ new \<and> attempts new = [inputPath] \<and> failures new = [] \<and>
           unwritable w' = unwritable w \<and> uncreatable w' = uncreatable w \<and>
           (\<forall>q. files w q \<noteq> None \<longrightarrow> files w' q \<noteq> None) \<and>
           (case r of
              Inl e \<Rightarrow> successes new = [] \<and> files w' = files w
            | Inr p \<Rightarrow> successes new = [p] \<and> writes new = [p] \<and> files w' p \<noteq> None \<and>
                p = (if truthy outputPath then the outputPath else default_output inputPath))"
  using assms
  by (auto simp: convertDocxToMdx_def fail_convert_def Let_def
           split: if_splits sum.splits option.splits prod.splits)


text \<open>The loop: it reaches every file, whatever the outcomes of the earlier ones.\<close>

lemma convert_files_run:
  assumes "\<not> (truthy out \<and> the out \<in> uncreatable w)"
  shows "\<exists>ps new w'. convert_files E dir out fs acc w = (Inr (acc @ ps), w') \<and>
           trace w' = trace w @ new \<and>
           attempts new = map (join dir) fs \<and>
           successes new = ps \<and>
           subseq (failures new) fs \<and>
           length ps + length (failures new) = length fs \<and>
           (\<forall>q. files w q \<noteq> None \<longrightarrow> files w' q \<noteq> None) \<and>
           (\<forall>p \<in> set ps. files w' p \<noteq> None) \<and>
           set ps \<subseteq> set (writes new) \<and>
           (\<not> truthy out \<longrightarrow> subseq ps (map (\<lambda>f. default_output (join dir f)) fs))"
  using assms
proof (induction fs arbitrary: acc w)
  case Nil
  show ?case
    by (rule exI [of _ "[]"], rule exI [of _ "[]"], rule exI [of _ w]) simp
next
  case (Cons f fs)
  define w1 where "w1 =
    (if truthy out
     then (emit (FsMkdir (the out)) w)
            \<lparr>listing := (listing w)(the out \<mapsto>
                (case listing w (the out) of None \<Rightarrow> [] | Some l \<Rightarrow> l))\<rparr>
     else w)"
  define op where "op =
    (if truthy out then Some (join (the out) (basename f (Some (extname f)) @ js ''.mdx''))
     else None)"
  define mk where "mk = (if truthy out then [FsMkdir (the out)] else [])"
  have w1: "trace w1 = trace w @ mk" "uncreatable w1 = uncreatable w" "files w1 = files w"
    by (simp_all add: w1_def mk_def)
  have mk: "attempts mk = []" "successes mk = []" "failures mk = []"
    by (simp_all add: mk_def)
  obtain r w2 where conv: "convertDocxToMdx E (join dir f) op w1 = (r, w2)"
    by fastforce
  from convert_one [OF conv] obtain new1 where new1:
    "trace w2 = trace w1 @ new1" "attempts new1 = [join dir f]" "failures new1 = []"
    "uncreatable w2 = uncreatable w1"
    "\<forall>q. files w1 q \<noteq> None \<longrightarrow> files w2 q \<noteq> None"
    and outcome: "case r of
        Inl e \<Rightarrow> successes new1 = [] \<and> files w2 = files w1
      | Inr p \<Rightarrow> successes new1 = [p] \<and> writes new1 = [p] \<and> files w2 p \<noteq> None \<and>
          p = (if truthy op then the op else default_output (join dir f))"
    by blast
  show ?case
  proof (cases r)
    case (Inl e)
    let ?w3 = "emit (LogFailed f e) w2"
    have step: "convert_files E dir out (f # fs) acc w = convert_files E dir out fs acc ?w3"
      using Cons.prems conv Inl by (auto simp: w1_def op_def Let_def)
    have "\<not> (truthy out \<and> the out \<in> uncreatable ?w3)"
      using Cons.prems new1 w1 by simp
    from Cons.IH [OF this, of acc] obtain ps new w' where rest:
      "convert_files E dir out fs acc ?w3 = (Inr (acc @ ps), w')"
      "trace w' = trace ?w3 @ new" "attempts new = map (join dir) fs" "successes new = ps"
      "subseq (failures new) fs" "length ps + length (failures new) = length fs"
      "\<forall>q. files ?w3 q \<noteq> None \<longrightarrow> files w' q \<noteq> None"
      "\<forall>p \<in> set ps. files w' p \<noteq> None"
      "set ps \<subseteq> set (writes new)"
      "\<not> truthy out \<longrightarrow> subseq ps (map (\<lambda>f. default_output (join dir f)) fs)"
      by blast
    from outcome Inl have none: "successes new1 = []" "files w2 = files w1"
      by simp_all
    show ?thesis
      apply (rule exI [of _ ps])
      apply (rule exI [of _ "mk @ new1 @ [LogFailed f e] @ new"])
      apply (rule exI [of _ w'])
      using step rest new1 w1 mk none
      apply (auto simp: subseq_Cons')
      done
  next
    case (Inr p)
    have step: "convert_files E dir out (f # fs) acc w = convert_files E dir out fs (acc @ [p]) w2"
      using Cons.prems conv Inr by (auto simp: w1_def op_def Let_def)
    have "\<not> (truthy out \<and> the out \<in> uncreatable w2)"
      using Cons.prems new1 w1 by simp
    from Cons.IH [OF this, of "acc @ [p]"] obtain ps new w' where rest:
      "convert_files E dir out fs (acc @ [p]) w2 = (Inr ((acc @ [p]) @ ps), w')"
      "trace w' = trace w2 @ new" "attempts new = map (join dir) fs" "successes new = ps"
      "subseq (failures new) fs" "length ps + length (failures new) = length fs"
      "\<forall>q. files w2 q \<noteq> None \<longrightarrow> files w' q \<noteq> None"
      "\<forall>p \<in> set ps. files w' p \<noteq> None"
      "set ps \<subseteq> set (writes new)"
      "\<not> truthy out \<longrightarrow> subseq ps (map (\<lambda>f. default_output (join dir f)) fs)"
      by blast
    from outcome Inr have one: "successes new1 = [p]" "writes new1 = [p]" "files w2 p \<noteq> None"
      "p = (if truthy op then the op else default_output (join dir f))"
      by (auto split: if_splits)
    have target: "\<not> truthy out \<longrightarrow> p = default_output (join dir f)"
      using one(4) by (simp add: op_def truthy_def)
    show ?thesis
      apply (rule exI [of _ "p # ps"])
      apply (rule exI [of _ "mk @ new1 @ new"])
      apply (rule exI [of _ w'])
      using step rest new1 w1 mk one(1,2,3) target
      apply (auto simp: subseq_Cons')
      done
  qed
qed

text \<open>
  Claim C9. When the source path does not exist, a single-file conversion ends with
  \<open>NotFoundError\<close> right after the call of \<^verbatim>\<open>fs.access\<close>: the error is printed, the
  extraction collaborator is not called, \<^verbatim>\<open>fs.writeFile\<close> is not called and no file
  changes.
\<close>

theorem missing_source_not_found:
  assumes "files w inputPath = None" and "listing w inputPath = None"
  shows "\<exists>w'. convertDocxToMdx E inputPath outputPath w = (Inl NotFoundError, w') \<and>
           trace w' = trace w @
             [LogReading inputPath, FsAccess inputPath, LogErrorConverting NotFoundError] \<and>
           extractions (trace w') = extractions (trace w) \<and>
           writes (trace w') = writes (trace w) \<and>
           files w' = files w"
  using assms by (simp add: convertDocxToMdx_def fail_convert_def Let_def)

theorem missing_source_not_found_witness:
  "\<exists>w'. convertDocxToMdx sample_env (js ''docs/missing.docx'') None (sample_world []) =
          (Inl NotFoundError, w') \<and>
        trace w' = trace (sample_world []) @
          [LogReading (js ''docs/missing.docx''), FsAccess (js ''docs/missing.docx''),
           LogErrorConverting NotFoundError] \<and>
        extractions (trace w') = extractions (trace (sample_world [])) \<and>
        writes (trace w') = writes (trace (sample_world [])) \<and>
        files w' = files (sample_world [])"
proof -
  have "files (sample_world []) (js ''docs/missing.docx'') = None"
    by (simp add: sample_world_def js_def)
  moreover have "listing (sample_world []) (js ''docs/missing.docx'') = None"
    by (simp add: sample_world_def js_def)
  ultimately show ?thesis
    by (rule missing_source_not_found)
qed

text \<open>
  Claim C7, as amended. When the directory can be listed and \<^verbatim>\<open>fs.mkdir\<close> of the
  destination directory, if one is given, does not fail, the batch returns normally. Every
  eligible file is attempted, in listing order, whatever happened to the files before it;
  the returned list is the list of the destinations reported as converted, in order; every
  other eligible file is reported as failed, and no failure is part of the result.
\<close>

theorem batch_survives_failures:
  assumes "listing w dir = Some names" and "\<not> (truthy out \<and> the out \<in> uncreatable w)"
  shows "\<exists>paths new w'. convertDirectory E dir out w = (Inr paths, w') \<and>
           trace w' = trace w @ new \<and>
           attempts new = map (join dir) (filter eligible names) \<and>
           paths = successes new \<and>
           subseq (failures new) (filter eligible names) \<and>
           length paths + length (failures new) = length (filter eligible names)"
proof (cases "filter eligible names = []")
  case True
  with assms(1) show ?thesis
    by (simp add: convertDirectory_def Let_def)
next
  case False
  let ?w1 = "emit (FsReaddir dir) (emit (LogProcessing dir) w)"
  have "\<not> (truthy out \<and> the out \<in> uncreatable ?w1)"
    using assms(2) by simp
  from convert_files_run [OF this, of E dir "filter eligible names" "[]"]
  obtain ps new w' where run:
    "convert_files E dir out (filter eligible names) [] ?w1 = (Inr ps, w')"
    "trace w' = trace ?w1 @ new" "attempts new = map (join dir) (filter eligible names)"
    "successes new = ps" "subseq (failures new) (filter eligible names)"
    "length ps + length (failures new) = length (filter eligible names)"
    by auto
  show ?thesis
    apply (rule exI [of _ ps])
    apply (rule exI [of _ "[LogProcessing dir, FsReaddir dir] @ new @ [LogConverted (length ps)]"])
    using assms(1) False run
    apply (simp add: convertDirectory_def Let_def)
    done
qed

theorem batch_survives_failures_witness:
  "(\<exists>paths new w'.
      convertDirectory sample_env (js ''docs'') None (sample_world [js ''c.DOCX'', js ''a.docx'']) =
        (Inr paths, w') \<and>
      trace w' = trace (sample_world [js ''c.DOCX'', js ''a.docx'']) @ new \<and>
      attempts new = map (join (js ''docs'')) (filter eligible [js ''c.DOCX'', js ''a.docx'']) \<and>
      paths = successes new \<and>
      subseq (failures new) (filter eligible [js ''c.DOCX'', js ''a.docx'']) \<and>
      length paths + length (failures new) = length (filter eligible [js ''c.DOCX'', js ''a.docx''])) \<and>
   fst (convertDirectory sample_env (js ''docs'') None (sample_world [js ''c.DOCX'', js ''a.docx''])) =
     Inr [js ''docs/a.mdx''] \<and>
   failures (trace (snd (convertDirectory sample_env (js ''docs'') None
     (sample_world [js ''c.DOCX'', js ''a.docx''])))) = [js ''c.DOCX'']"
proof -
  have 1: "listing (sample_world [js ''c.DOCX'', js ''a.docx'']) (js ''docs'') =
      Some [js ''c.DOCX'', js ''a.docx'']"
    by (simp add: sample_world_def)
  have 2: "\<not> (truthy None \<and> the None \<in> uncreatable (sample_world [js ''c.DOCX'', js ''a.docx'']))"
    by (simp add: truthy_def)
  have 3: "fst (convertDirectory sample_env (js ''docs'') None
      (sample_world [js ''c.DOCX'', js ''a.docx''])) = Inr [js ''docs/a.mdx'']"
    by code_simp
  have 4: "failures (trace (snd (convertDirectory sample_env (js ''docs'') None
      (sample_world [js ''c.DOCX'', js ''a.docx''])))) = [js ''c.DOCX'']"
    by code_simp
  from batch_survives_failures [OF 1 2, of sample_env] 3 4 show ?thesis
    by blast
qed

text \<open>
  The claim as stated fails when a destination directory is given and cannot be created:
  \<^verbatim>\<open>fs.mkdir\<close> is called in the loop, for the first eligible file, outside the inner
  \<^verbatim>\<open>try\<close>. Its failure is caught by the outer handler only, so the batch ends with the
  error and no file is attempted, the second no more than the first.
\<close>

theorem batch_survives_failures_counterexample:
  "filter eligible [js ''c.DOCX'', js ''a.docx''] = [js ''c.DOCX'', js ''a.docx''] \<and>
   fst (convertDirectory sample_env (js ''docs'') (Some (js ''out''))
     ((sample_world [js ''c.DOCX'', js ''a.docx''])\<lparr>uncreatable := {js ''out''}\<rparr>)) = Inl IOError \<and>
   trace (snd (convertDirectory sample_env (js ''docs'') (Some (js ''out''))
     ((sample_world [js ''c.DOCX'', js ''a.docx''])\<lparr>uncreatable := {js ''out''}\<rparr>))) =
     [LogProcessing (js ''docs''), FsReaddir (js ''docs''), FsMkdir (js ''out''),
      LogErrorDirectory IOError] \<and>
   attempts (trace (snd (convertDirectory sample_env (js ''docs'') (Some (js ''out''))
     ((sample_world [js ''c.DOCX'', js ''a.docx''])\<lparr>uncreatable := {js ''out''}\<rparr>)))) = []"
  by code_simp

text \<open>
  Claim C10. When no destination directory is given, the batch returns the destinations
  reported as converted, and each of them is the path derived from the source path of an
  eligible file, in listing order: the directory of the source path joined with its base
  name, the extension replaced by \<^verbatim>\<open>.mdx\<close>. Each returned path was handed to
  \<^verbatim>\<open>fs.writeFile\<close> and is a file afterwards.
\<close>

theorem batch_default_destination:
  assumes "listing w dir = Some names" and "\<not> truthy out"
  shows "\<exists>paths new w'. convertDirectory E dir out w = (Inr paths, w') \<and>
           trace w' = trace w @ new \<and>
           paths = successes new \<and>
           subseq paths
             (map (\<lambda>f. join (dirname (join dir f))
                          (basename (join dir f) (Some (extname (join dir f))) @ js ''.mdx''))
                (filter eligible names)) \<and>
           set paths \<subseteq> set (writes new) \<and>
           (\<forall>p \<in> set paths. files w' p \<noteq> None)"
proof (cases "filter eligible names = []")
  case True
  with assms(1) show ?thesis
    by (simp add: convertDirectory_def Let_def)
next
  case False
  let ?w1 = "emit (FsReaddir dir) (emit (LogProcessing dir) w)"
  have "\<not> (truthy out \<and> the out \<in> uncreatable ?w1)"
    using assms(2) by simp
  from convert_files_run [OF this, of E dir "filter eligible names" "[]"] assms(2)
  obtain ps new w' where run:
    "convert_files E dir out (filter eligible names) [] ?w1 = (Inr ps, w')"
    "trace w' = trace ?w1 @ new" "successes new = ps"
    "\<forall>p \<in> set ps. files w' p \<noteq> None" "set ps \<subseteq> set (writes new)"
    "subseq ps (map (\<lambda>f. default_output (join dir f)) (filter eligible names))"
    by auto
  show ?thesis
    apply (rule exI [of _ ps])
    apply (rule exI [of _ "[LogProcessing dir, FsReaddir dir] @ new @ [LogConverted (length ps)]"])
    using assms(1) False run
    apply (simp add: convertDirectory_def Let_def default_output_def)
    done
qed

theorem batch_default_destination_witness:
  \<open>(\<exists>paths new w'.
      convertDirectory sample_env (js ''docs'') None (sample_world [js ''a.docx'']) = (Inr paths, w') \<and>
      trace w' = trace (sample_world [js ''a.docx'']) @ new \<and>
      paths = successes new \<and>
      subseq paths
        (map (\<lambda>f. join (dirname (join (js ''docs'') f))
                     (basename (join (js ''docs'') f) (Some (extname (join (js ''docs'') f))) @
                      js ''.mdx''))
           (filter eligible [js ''a.docx''])) \<and>
      set paths \<subseteq> set (writes new) \<and>
      (\<forall>p \<in> set paths. files w' p \<noteq> None)) \<and>
   fst (convertDirectory sample_env (js ''docs'') None (sample_world [js ''a.docx''])) =
     Inr [js ''docs/a.mdx''] \<and>
   files (snd (convertDirectory sample_env (js ''docs'') None (sample_world [js ''a.docx''])))
     (js ''docs/a.mdx'') =
     Some (js ''---\<newline>title: "a"\<newline>description: "Converted from DOCX file"\<newline>date: "2024-05-17"\<newline>---\<newline>\<newline># Title'')\<close>
proof -
  have 1: "listing (sample_world [js ''a.docx'']) (js ''docs'') = Some [js ''a.docx'']"
    by (simp add: sample_world_def)
  have 2: "\<not> truthy None"
    by (simp add: truthy_def)
  have 3: "fst (convertDirectory sample_env (js ''docs'') None (sample_world [js ''a.docx''])) =
      Inr [js ''docs/a.mdx'']"
    by code_simp
  have 4: \<open>files (snd (convertDirectory sample_env (js ''docs'') None (sample_world [js ''a.docx''])))
      (js ''docs/a.mdx'') =
      Some (js ''---\<newline>title: "a"\<newline>description: "Converted from DOCX file"\<newline>date: "2024-05-17"\<newline>---\<newline>\<newline># Title'')\<close>
    by code_simp
  from batch_default_destination [OF 1 2, of sample_env] 3 4 show ?thesis
    by blast
qed


section \<open>Eligible directory entries\<close>

lemma last_portion_plain: "SLASH \<notin> set f \<Longrightarrow> last_portion f = f"
proof -
  assume a: "SLASH \<notin> set f"
  then have "dropWhile (\<lambda>c. c = SLASH) (rev f) = rev f"
    by (cases f rule: rev_cases) auto
  moreover from a have "takeWhile (\<lambda>c. c \<noteq> SLASH) (rev f) = rev f"
    by (auto simp: takeWhile_eq_all_conv) 
  ultimately show ?thesis unfolding last_portion_def by (simp only: rev_rev_ident)
qed

lemma lower_shift: "(c::jschar) + 0x20 = d \<longleftrightarrow> c = d - 0x20"
  by auto

lemma lower_char:
  "(if 0x41 \<le> c \<and> c \<le> 0x5A then c + 0x20 else c) = DOT \<longleftrightarrow> c = DOT"
  "(if 0x41 \<le> c \<and> c \<le> 0x5A then c + 0x20 else c) = 0x64 \<longleftrightarrow> c = 0x64 \<or> c = 0x44"
  "(if 0x41 \<le> c \<and> c \<le> 0x5A then c + 0x20 else c) = 0x6F \<longleftrightarrow> c = 0x6F \<or> c = 0x4F"
  "(if 0x41 \<le> c \<and> c \<le> 0x5A then c + 0x20 else c) = 0x63 \<longleftrightarrow> c = 0x63 \<or> c = 0x43"
  "(if 0x41 \<le> c \<and> c \<le> 0x5A then c + 0x20 else c) = 0x78 \<longleftrightarrow> c = 0x78 \<or> c = 0x58"
  for c :: jschar
  by (auto simp: lower_shift)


lemma lower_docx:
  "toLowerCase e = js ''.docx'' \<longleftrightarrow>
     (\<exists>d o' c x. e = [DOT, d, o', c, x] \<and> (d = 0x64 \<or> d = 0x44) \<and> (o' = 0x6F \<or> o' = 0x4F) \<and>
        (c = 0x63 \<or> c = 0x43) \<and> (x = 0x78 \<or> x = 0x58))"
proof
  assume l: "toLowerCase e = js ''.docx''"
  have "length (toLowerCase e) = length e"
    by (simp add: toLowerCase_def)
  with l have "length e = 5"
    by (simp add: js_def)
  then obtain e0 e1 e2 e3 e4 where e: "e = [e0, e1, e2, e3, e4]"
    by (auto simp: length_Suc_conv eval_nat_numeral)
  with l show "\<exists>d o' c x. e = [DOT, d, o', c, x] \<and> (d = 0x64 \<or> d = 0x44) \<and> (o' = 0x6F \<or> o' = 0x4F) \<and>
        (c = 0x63 \<or> c = 0x43) \<and> (x = 0x78 \<or> x = 0x58)"
    by (simp add: toLowerCase_def js_def lower_char)
next
  assume "\<exists>d o' c x. e = [DOT, d, o', c, x] \<and> (d = 0x64 \<or> d = 0x44) \<and> (o' = 0x6F \<or> o' = 0x4F) \<and>
        (c = 0x63 \<or> c = 0x43) \<and> (x = 0x78 \<or> x = 0x58)"
  then show "toLowerCase e = js ''.docx''"
    by (auto simp: toLowerCase_def js_def)
qed


lemma extname_suffixed:
  assumes "g \<noteq> []" and "SLASH \<notin> set g"
    and "d \<noteq> DOT" "o' \<noteq> DOT" "c \<noteq> DOT" "x \<noteq> DOT"
    and "d \<noteq> SLASH" "o' \<noteq> SLASH" "c \<noteq> SLASH" "x \<noteq> SLASH"
  shows "extname (g @ [DOT, d, o', c, x]) = [DOT, d, o', c, x]"
proof -
  let ?f = "g @ [DOT, d, o', c, x]"
  have "SLASH \<notin> set ?f"
    using assms by simp
  then have lp: "last_portion ?f = ?f"
    by (rule last_portion_plain)
  have tw: "takeWhile (\<lambda>c. c \<noteq> DOT) (rev ?f) = [x, c, o', d]"
    using assms by simp
  have ne: "?f \<noteq> [DOT, DOT]"
    by simp
  show ?thesis
    unfolding extname_def lp Let_def tw using assms(1) ne by simp
qed

lemma endsWith_iff: "endsWith s e \<longleftrightarrow> (\<exists>a. s = a @ e)"
proof
  assume "endsWith s e"
  then have "s = take (length s - length e) s @ e"
    by (metis append_take_drop_id endsWith_def)
  then show "\<exists>a. s = a @ e" ..
next
  assume "\<exists>a. s = a @ e"
  then show "endsWith s e"
    by (auto simp: endsWith_def)
qed

text \<open>Eligibility of a name without separator, as directory entries are.\<close>

lemma eligible_plain_name:
  assumes "SLASH \<notin> set f"
  shows "eligible f \<longleftrightarrow>
     endsWith (toLowerCase f) (js ''.docx'') \<and> 5 < length f \<and> \<not> startsWith f (js ''~'')"
proof -
  have base: "basename f None = f"
    using assms by (simp add: basename_def last_portion_plain)
  have "toLowerCase (extname f) = js ''.docx'' \<longleftrightarrow>
      endsWith (toLowerCase f) (js ''.docx'') \<and> 5 < length f"
  proof
    assume l: "toLowerCase (extname f) = js ''.docx''"
    have "length (toLowerCase (extname f)) = length (extname f)"
      by (simp add: toLowerCase_def)
    with l have len: "length (extname f) = 5"
      by (simp add: js_def)
    define after where "after = rev (takeWhile (\<lambda>c. c \<noteq> DOT) (rev f))"
    define dot where "dot = length f - length after - 1"
    have ext: "extname f = (if DOT \<notin> set f \<or> dot = 0 \<or> f = [DOT, DOT] then [] else drop dot f)"
      using assms by (simp add: extname_def last_portion_plain Let_def after_def dot_def)
    with len have d: "dot \<noteq> 0" "extname f = drop dot f"
      by (auto split: if_splits)
    with len have "length f = dot + 5"
      by simp
    moreover have "toLowerCase f = toLowerCase (take dot f) @ toLowerCase (drop dot f)"
      unfolding toLowerCase_def map_append [symmetric] by simp
    ultimately show "endsWith (toLowerCase f) (js ''.docx'') \<and> 5 < length f"
      using l d endsWith_append [of "toLowerCase (take dot f)" "js ''.docx''"] by simp
  next
    assume r: "endsWith (toLowerCase f) (js ''.docx'') \<and> 5 < length f"
    define g where "g = take (length f - 5) f"
    define e where "e = drop (length f - 5) f"
    have f: "f = g @ e"
      by (simp add: g_def e_def)
    have "toLowerCase e = drop (length f - 5) (toLowerCase f)"
      by (simp add: e_def toLowerCase_def drop_map)
    also have "\<dots> = js ''.docx''"
    proof -
      have "length (js ''.docx'') = 5"
        by (simp add: js_def)
      with r show ?thesis
        by (simp add: endsWith_def toLowerCase_def)
    qed
    finally have "toLowerCase e = js ''.docx''" .
    then obtain d o' c x where e: "e = [DOT, d, o', c, x]"
      and l: "d = 0x64 \<or> d = 0x44" "o' = 0x6F \<or> o' = 0x4F" "c = 0x63 \<or> c = 0x43"
        "x = 0x78 \<or> x = 0x58"
      unfolding lower_docx by blast
    have "g \<noteq> []"
      using r by (auto simp: g_def)
    moreover have "SLASH \<notin> set g"
      using assms f by (metis Un_iff set_append)
    moreover have "d \<noteq> DOT" "o' \<noteq> DOT" "c \<noteq> DOT" "x \<noteq> DOT"
      "d \<noteq> SLASH" "o' \<noteq> SLASH" "c \<noteq> SLASH" "x \<noteq> SLASH"
      using l by auto
    ultimately have "extname (g @ [DOT, d, o', c, x]) = [DOT, d, o', c, x]"
      by (rule extname_suffixed)
    then show "toLowerCase (extname f) = js ''.docx''"
      using f e \<open>toLowerCase e = js ''.docx''\<close> by simp
  qed
  then show ?thesis
    by (simp add: eligible_def base)
qed

text \<open>
  Claim C8, as amended. The entries of a directory are names without separator. When
  \<^verbatim>\<open>fs.mkdir\<close> of the destination directory, if one is given, does not fail, the batch
  attempts exactly the entries that end with \<^verbatim>\<open>.docx\<close> in any letter case, are longer than
  this extension and do not begin with \<^verbatim>\<open>~\<close>, in listing order; when there is none, the
  result is the empty list, no error is raised and nothing is attempted.
\<close>

theorem eligible_entries:
  assumes "listing w dir = Some names" and "\<forall>f \<in> set names. SLASH \<notin> set f"
    and "\<not> (truthy out \<and> the out \<in> uncreatable w)"
  shows "\<exists>paths new w'. convertDirectory E dir out w = (Inr paths, w') \<and>
           trace w' = trace w @ new \<and>
           attempts new = map (join dir)
             (filter (\<lambda>f. endsWith (toLowerCase f) (js ''.docx'') \<and> 5 < length f \<and>
                          \<not> startsWith f (js ''~'')) names) \<and>
           ((\<forall>f \<in> set names. \<not> (endsWith (toLowerCase f) (js ''.docx'') \<and> 5 < length f \<and>
                          \<not> startsWith f (js ''~''))) \<longrightarrow>
              paths = [] \<and> new = [LogProcessing dir, FsReaddir dir, LogNoFiles])"
proof -
  let ?ok = "\<lambda>f. endsWith (toLowerCase f) (js ''.docx'') \<and> 5 < length f \<and>
                 \<not> startsWith f (js ''~'')"
  have same: "filter eligible names = filter ?ok names"
    using assms(2) by (intro filter_cong refl) (simp add: eligible_plain_name)
  show ?thesis
  proof (cases "filter eligible names = []")
    case True
    then have "\<forall>f \<in> set names. \<not> ?ok f"
      unfolding same by (simp add: filter_empty_conv)
    with assms(1) True same show ?thesis
      by (simp add: convertDirectory_def Let_def)
  next
    case False
    then have some: "\<not> (\<forall>f \<in> set names. \<not> ?ok f)"
      unfolding same by (simp add: filter_empty_conv)
    let ?w1 = "emit (FsReaddir dir) (emit (LogProcessing dir) w)"
    have "\<not> (truthy out \<and> the out \<in> uncreatable ?w1)"
      using assms(3) by simp
    from convert_files_run [OF this, of E dir "filter eligible names" "[]"]
    obtain ps new w' where run:
      "convert_files E dir out (filter eligible names) [] ?w1 = (Inr ps, w')"
      "trace w' = trace ?w1 @ new" "attempts new = map (join dir) (filter eligible names)"
      by auto
    show ?thesis
      apply (rule exI [of _ ps])
      apply (rule exI [of _ "[LogProcessing dir, FsReaddir dir] @ new @ [LogConverted (length ps)]"])
      using assms(1) False run some same
      apply (simp add: convertDirectory_def Let_def)
      done
  qed
qed

theorem eligible_entries_witness:
  "(\<exists>paths new w'.
      convertDirectory sample_env (js ''docs'') None
        (sample_world [js ''a.docx'', js ''~temp.docx'', js ''b.txt'']) = (Inr paths, w') \<and>
      trace w' = trace (sample_world [js ''a.docx'', js ''~temp.docx'', js ''b.txt'']) @ new \<and>
      attempts new = map (join (js ''docs''))
        (filter (\<lambda>f. endsWith (toLowerCase f) (js ''.docx'') \<and> 5 < length f \<and>
                     \<not> startsWith f (js ''~''))
           [js ''a.docx'', js ''~temp.docx'', js ''b.txt'']) \<and>
      ((\<forall>f \<in> set [js ''a.docx'', js ''~temp.docx'', js ''b.txt''].
          \<not> (endsWith (toLowerCase f) (js ''.docx'') \<and> 5 < length f \<and> \<not> startsWith f (js ''~''))) \<longrightarrow>
         paths = [] \<and> new = [LogProcessing (js ''docs''), FsReaddir (js ''docs''), LogNoFiles])) \<and>
   fst (convertDirectory sample_env (js ''docs'') None
     (sample_world [js ''a.docx'', js ''~temp.docx'', js ''b.txt''])) = Inr [js ''docs/a.mdx''] \<and>
   attempts (trace (snd (convertDirectory sample_env (js ''docs'') None
     (sample_world [js ''a.docx'', js ''~temp.docx'', js ''b.txt''])))) = [js ''docs/a.docx''] \<and>
   convertDirectory sample_env (js ''docs'') None (sample_world [js ''~temp.docx'', js ''b.txt'']) =
     (Inr [], (sample_world [js ''~temp.docx'', js ''b.txt''])
        \<lparr>trace := [LogProcessing (js ''docs''), FsReaddir (js ''docs''), LogNoFiles]\<rparr>)"
proof -
  let ?names = "[js ''a.docx'', js ''~temp.docx'', js ''b.txt'']"
  have 1: "listing (sample_world ?names) (js ''docs'') = Some ?names"
    by (simp add: sample_world_def)
  have 2: "\<forall>f \<in> set ?names. SLASH \<notin> set f"
    by (simp add: js_def)
  have 3: "\<not> (truthy None \<and> the None \<in> uncreatable (sample_world ?names))"
    by (simp add: truthy_def)
  have 4: "fst (convertDirectory sample_env (js ''docs'') None (sample_world ?names)) =
      Inr [js ''docs/a.mdx'']"
    by code_simp
  have 5: "attempts (trace (snd (convertDirectory sample_env (js ''docs'') None
      (sample_world ?names)))) = [js ''docs/a.docx'']"
    by code_simp
  have "filter eligible [js ''~temp.docx'', js ''b.txt''] = []"
    by code_simp
  then have 6: "convertDirectory sample_env (js ''docs'') None
      (sample_world [js ''~temp.docx'', js ''b.txt'']) =
     (Inr [], (sample_world [js ''~temp.docx'', js ''b.txt''])
        \<lparr>trace := [LogProcessing (js ''docs''), FsReaddir (js ''docs''), LogNoFiles]\<rparr>)"
    by (simp add: convertDirectory_def sample_world_def emit_def)
  from eligible_entries [OF 1 2 3, of sample_env] 4 5 6 show ?thesis
    by blast
qed

text \<open>
  The claim as stated fails at the entry \<^verbatim>\<open>.docx\<close>: the name ends with the extension and
  does not begin with \<^verbatim>\<open>~\<close>, the file exists, and yet the batch attempts nothing, because
  \<^verbatim>\<open>path.extname\<close> gives the empty string for a name that is only an extension. It also
  fails for the eligible entry \<^verbatim>\<open>a.docx\<close> when the destination directory cannot be created:
  the batch ends before its first attempt.
\<close>

theorem eligible_entries_counterexample:
  "endsWith (toLowerCase (js ''.docx'')) (js ''.docx'') \<and>
   \<not> startsWith (js ''.docx'') (js ''~'') \<and>
   files (sample_world [js ''.docx'']) (js ''docs/.docx'') \<noteq> None \<and>
   extname (js ''.docx'') = [] \<and>
   \<not> eligible (js ''.docx'') \<and>
   attempts (trace (snd (convertDirectory sample_env (js ''docs'') None
     (sample_world [js ''.docx''])))) = [] \<and>
   eligible (js ''a.docx'') \<and>
   attempts (trace (snd (convertDirectory sample_env (js ''docs'') (Some (js ''out''))
     ((sample_world [js ''a.docx''])\<lparr>uncreatable := {js ''out''}\<rparr>)))) = []"
  by code_simp

end
